theory Spec2Isabelle
  imports Main
begin

section \<open>The scene graph of \<open>src/3d/object3d.js\<close>\<close>

text \<open>
  \<open>Object3D\<close> nodes are JavaScript objects that point at each other (\<open>_parent\<close>,
  \<open>_children\<close>), so the model is an explicit store: a scene maps every reference (a
  natural number) to the fields of the object it denotes.  A reference that the program
  has not handed out yet denotes an object nobody points at.  Every method takes the
  scene and returns the updated scene.

  The vector, quaternion and matrix classes (\<open>math/vec3.js\<close>, \<open>math/quat.js\<close>,
  \<open>math/mat4.js\<close>) are not part of the sources at hand.  The methods of them that
  \<open>Object3D\<close> calls are the fields of a record that every operation takes as its first
  argument; \<open>'r\<close> is the type of numbers, \<open>'v\<close> of vectors, \<open>'q\<close> of quaternions and
  \<open>'m\<close> of matrices.  The in-place methods (\<open>v.add(w)\<close>, \<open>m.translate(v)\<close>, ...) are
  functions from the receiver's old value to its new value; \<open>copy\<close>, \<open>identity\<close> and
  \<open>fromAxisRotation\<close> overwrite the receiver, so they do not take the old value.
\<close>

subsection \<open>External math library\<close>

record ('r, 'v, 'q, 'm) mathlib =
  vec_add :: "'v \<Rightarrow> 'v \<Rightarrow> 'v"
  vec_multiply :: "'v \<Rightarrow> 'v \<Rightarrow> 'v"
  vec_translateX :: "'v \<Rightarrow> 'r \<Rightarrow> 'v"
  vec_translateY :: "'v \<Rightarrow> 'r \<Rightarrow> 'v"
  vec_translateZ :: "'v \<Rightarrow> 'r \<Rightarrow> 'v"
  vec_X_AXIS :: "'v"
  vec_Y_AXIS :: "'v"
  vec_Z_AXIS :: "'v"
  quat_new :: "'q"
  quat_fromAxisRotation :: "'r \<Rightarrow> 'v \<Rightarrow> 'q"
  quat_multiply :: "'q \<Rightarrow> 'q \<Rightarrow> 'q"
  mat_identity :: "'m"
  mat_translate :: "'m \<Rightarrow> 'v \<Rightarrow> 'm"
  mat_rotateQuat :: "'m \<Rightarrow> 'q \<Rightarrow> 'm"
  mat_scaleVec :: "'m \<Rightarrow> 'v \<Rightarrow> 'm"
  mat_multiply :: "'m \<Rightarrow> 'm \<Rightarrow> 'm"
  mat_Translate :: "'v \<Rightarrow> 'm"
  mat_Rotate :: "'q \<Rightarrow> 'm"
  mat_Scale :: "'v \<Rightarrow> 'm"

text \<open>
  The last three fields are not called by the code.  They name the matrices
  \<open>Translate(v)\<close>, \<open>Rotate(q)\<close> and \<open>Scale(v)\<close> of the specification, and
  \<open>post_multiplying\<close> says how the in-place methods of \<open>Mat4\<close> relate to them: each
  multiplies the receiver on the right, and the identity is neutral on the left.
\<close>

definition post_multiplying :: "('r, 'v, 'q, 'm) mathlib \<Rightarrow> bool" where
  "post_multiplying ml =
     ((\<forall>M v. mat_translate ml M v = mat_multiply ml M (mat_Translate ml v)) \<and>
      (\<forall>M q. mat_rotateQuat ml M q = mat_multiply ml M (mat_Rotate ml q)) \<and>
      (\<forall>M v. mat_scaleVec ml M v = mat_multiply ml M (mat_Scale ml v)) \<and>
      (\<forall>M. mat_multiply ml (mat_identity ml) M = M))"

subsection \<open>Objects, deliveries and the scene\<close>

datatype ('v, 'q, 'm) arg = Vec 'v | Quat 'q | Mat 'm | Obj nat

text \<open>
  A listener is an opaque callback, named by a number.  Calling it is recorded as a
  delivery: which object notified, under which event name, which callback ran and with
  which arguments.  Callbacks are taken not to call back into the scene graph.
\<close>

record ('v, 'q, 'm) delivery =
  emitter :: nat
  event :: string
  callback :: nat
  args :: "('v, 'q, 'm) arg list"

text \<open>
  \<open>_children\<close> is a JavaScript \<open>Set\<close>: the list holds its entries without duplicates,
  in insertion order (the order in which \<open>for ... of\<close> visits them).
  \<open>_is_local_model_valid\<close> is never assigned by the constructor; it starts as
  \<open>undefined\<close>, which every test of the class treats as false.
\<close>

record ('v, 'q, 'm) object3d =
  ident :: string
  name :: string
  parent :: "nat option"
  children :: "nat list"
  origin :: 'v
  orientation :: 'q
  scale :: 'v
  is_model_valid :: bool
  is_local_model_valid :: bool
  local_model :: 'm
  world_model :: 'm
  tmp_quaternion :: 'q
  listeners :: "string \<Rightarrow> nat list"

record ('v, 'q, 'm) scene =
  nodes :: "nat \<Rightarrow> ('v, 'q, 'm) object3d"
  delivered :: "('v, 'q, 'm) delivery list"

datatype error = AlreadyHasParent

definition modify ::
  "nat \<Rightarrow> (('v, 'q, 'm) object3d \<Rightarrow> ('v, 'q, 'm) object3d) \<Rightarrow> ('v, 'q, 'm) scene \<Rightarrow> ('v, 'q, 'm) scene"
where
  "modify n f s = s\<lparr>nodes := (nodes s)(n := f (nodes s n))\<rparr>"

subsection \<open>Listenable\<close>

text \<open>
  Modelled from the spec: \<open>util/listenable.js\<close>, the base class of \<open>Object3D\<close>, is
  missing from the sources.  Section 4.4 of the specification: \<open>on\<close> appends the callback
  to the event's ordered sequence; \<open>notify\<close> invokes every callback registered for the
  event, in registration order, passing the arguments; \<open>clearListeners\<close> removes every
  callback of every event.
\<close>

definition on :: "nat \<Rightarrow> string \<Rightarrow> nat \<Rightarrow> ('v, 'q, 'm) scene \<Rightarrow> ('v, 'q, 'm) scene" where
  "on n ev cb s = modify n (\<lambda>ob. ob\<lparr>listeners := (listeners ob)(ev := listeners ob ev @ [cb])\<rparr>) s"

definition notify ::
  "nat \<Rightarrow> string \<Rightarrow> ('v, 'q, 'm) arg list \<Rightarrow> ('v, 'q, 'm) scene \<Rightarrow> ('v, 'q, 'm) scene"
where
  "notify n ev as s =
     s\<lparr>delivered := delivered s @
        map (\<lambda>cb. \<lparr>emitter = n, event = ev, callback = cb, args = as\<rparr>) (listeners (nodes s n) ev)\<rparr>"

definition clearListeners :: "nat \<Rightarrow> ('v, 'q, 'm) scene \<Rightarrow> ('v, 'q, 'm) scene" where
  "clearListeners n s = modify n (\<lambda>ob. ob\<lparr>listeners := (\<lambda>ev. [])\<rparr>) s"

subsection \<open>Object3D: construction and validity flags\<close>

definition Object3D ::
  "('r, 'v, 'q, 'm) mathlib \<Rightarrow> string \<Rightarrow> string \<Rightarrow> 'v \<Rightarrow> 'q \<Rightarrow> 'v \<Rightarrow> ('v, 'q, 'm) object3d"
where
  "Object3D ml i nm org ori scl =
     \<lparr>ident = i, name = nm, parent = None, children = [],
      origin = org, orientation = ori, scale = scl,
      is_model_valid = False, is_local_model_valid = False,
      local_model = mat_identity ml, world_model = mat_identity ml,
      tmp_quaternion = quat_new ml, listeners = (\<lambda>ev. [])\<rparr>"

definition invalidateModel :: "nat \<Rightarrow> ('v, 'q, 'm) scene \<Rightarrow> ('v, 'q, 'm) scene" where
  "invalidateModel n s = modify n (\<lambda>ob. ob\<lparr>is_model_valid := False\<rparr>) s"

definition invalidateLocalModel :: "nat \<Rightarrow> ('v, 'q, 'm) scene \<Rightarrow> ('v, 'q, 'm) scene" where
  "invalidateLocalModel n s =
     invalidateModel n (modify n (\<lambda>ob. ob\<lparr>is_local_model_valid := False\<rparr>) s)"

definition set_parent :: "nat \<Rightarrow> nat option \<Rightarrow> ('v, 'q, 'm) scene \<Rightarrow> ('v, 'q, 'm) scene" where
  "set_parent n p s = invalidateModel n (modify n (\<lambda>ob. ob\<lparr>parent := p\<rparr>) s)"

subsection \<open>Object3D: transform mutators\<close>

definition set_origin :: "nat \<Rightarrow> 'v \<Rightarrow> ('v, 'q, 'm) scene \<Rightarrow> ('v, 'q, 'm) scene" where
  "set_origin n v3 s =
     (let s1 = invalidateLocalModel n (modify n (\<lambda>ob. ob\<lparr>origin := v3\<rparr>) s)
      in notify n ''origin'' [Vec (origin (nodes s1 n))] s1)"

definition set_orientation :: "nat \<Rightarrow> 'q \<Rightarrow> ('v, 'q, 'm) scene \<Rightarrow> ('v, 'q, 'm) scene" where
  "set_orientation n q s =
     (let s1 = invalidateLocalModel n (modify n (\<lambda>ob. ob\<lparr>orientation := q\<rparr>) s)
      in notify n ''orientation'' [Quat (orientation (nodes s1 n))] s1)"

definition set_size :: "nat \<Rightarrow> 'v \<Rightarrow> ('v, 'q, 'm) scene \<Rightarrow> ('v, 'q, 'm) scene" where
  "set_size n v3 s =
     (let s1 = invalidateLocalModel n (modify n (\<lambda>ob. ob\<lparr>scale := v3\<rparr>) s)
      in notify n ''size'' [Vec (scale (nodes s1 n))] s1)"

text \<open>The method \<open>scale(v)\<close>; the field \<open>_scale\<close> has taken the name \<open>scale\<close>.\<close>

definition scaleBy ::
  "('r, 'v, 'q, 'm) mathlib \<Rightarrow> nat \<Rightarrow> 'v \<Rightarrow> ('v, 'q, 'm) scene \<Rightarrow> ('v, 'q, 'm) scene"
where
  "scaleBy ml n v s =
     (let s1 = invalidateLocalModel n (modify n (\<lambda>ob. ob\<lparr>scale := vec_multiply ml (scale ob) v\<rparr>) s)
      in notify n ''size'' [Vec (scale (nodes s1 n))] s1)"

definition translate ::
  "('r, 'v, 'q, 'm) mathlib \<Rightarrow> nat \<Rightarrow> 'v \<Rightarrow> ('v, 'q, 'm) scene \<Rightarrow> ('v, 'q, 'm) scene"
where
  "translate ml n v s =
     (let s1 = invalidateLocalModel n (modify n (\<lambda>ob. ob\<lparr>origin := vec_add ml (origin ob) v\<rparr>) s)
      in notify n ''origin'' [Vec (origin (nodes s1 n))] s1)"

definition translateX ::
  "('r, 'v, 'q, 'm) mathlib \<Rightarrow> nat \<Rightarrow> 'r \<Rightarrow> ('v, 'q, 'm) scene \<Rightarrow> ('v, 'q, 'm) scene"
where
  "translateX ml n delta_x s =
     (let s1 = invalidateLocalModel n
                 (modify n (\<lambda>ob. ob\<lparr>origin := vec_translateX ml (origin ob) delta_x\<rparr>) s)
      in notify n ''origin'' [Vec (origin (nodes s1 n))] s1)"

definition translateY ::
  "('r, 'v, 'q, 'm) mathlib \<Rightarrow> nat \<Rightarrow> 'r \<Rightarrow> ('v, 'q, 'm) scene \<Rightarrow> ('v, 'q, 'm) scene"
where
  "translateY ml n delta_y s =
     (let s1 = invalidateLocalModel n
                 (modify n (\<lambda>ob. ob\<lparr>origin := vec_translateY ml (origin ob) delta_y\<rparr>) s)
      in notify n ''origin'' [Vec (origin (nodes s1 n))] s1)"

definition translateZ ::
  "('r, 'v, 'q, 'm) mathlib \<Rightarrow> nat \<Rightarrow> 'r \<Rightarrow> ('v, 'q, 'm) scene \<Rightarrow> ('v, 'q, 'm) scene"
where
  "translateZ ml n delta_z s =
     (let s1 = invalidateLocalModel n
                 (modify n (\<lambda>ob. ob\<lparr>origin := vec_translateZ ml (origin ob) delta_z\<rparr>) s)
      in notify n ''origin'' [Vec (origin (nodes s1 n))] s1)"

text \<open>
  The four rotations differ in the axis only: each stores the axis rotation in the
  scratch quaternion, multiplies the orientation by it on the right, invalidates and
  notifies.  \<open>rotate3d\<close> is the method \<open>rotate(theta, axis)\<close>.
\<close>

definition rotate3d ::
  "('r, 'v, 'q, 'm) mathlib \<Rightarrow> nat \<Rightarrow> 'r \<Rightarrow> 'v \<Rightarrow> ('v, 'q, 'm) scene \<Rightarrow> ('v, 'q, 'm) scene"
where
  "rotate3d ml n theta axis s =
     (let s1 = modify n (\<lambda>ob. ob\<lparr>tmp_quaternion := quat_fromAxisRotation ml theta axis\<rparr>) s;
          s2 = modify n (\<lambda>ob. ob\<lparr>orientation := quat_multiply ml (orientation ob) (tmp_quaternion ob)\<rparr>) s1;
          s3 = invalidateLocalModel n s2
      in notify n ''orientation'' [Quat (orientation (nodes s3 n))] s3)"

definition rotateX ::
  "('r, 'v, 'q, 'm) mathlib \<Rightarrow> nat \<Rightarrow> 'r \<Rightarrow> ('v, 'q, 'm) scene \<Rightarrow> ('v, 'q, 'm) scene"
where
  "rotateX ml n theta s = rotate3d ml n theta (vec_X_AXIS ml) s"

definition rotateY ::
  "('r, 'v, 'q, 'm) mathlib \<Rightarrow> nat \<Rightarrow> 'r \<Rightarrow> ('v, 'q, 'm) scene \<Rightarrow> ('v, 'q, 'm) scene"
where
  "rotateY ml n theta s = rotate3d ml n theta (vec_Y_AXIS ml) s"

definition rotateZ ::
  "('r, 'v, 'q, 'm) mathlib \<Rightarrow> nat \<Rightarrow> 'r \<Rightarrow> ('v, 'q, 'm) scene \<Rightarrow> ('v, 'q, 'm) scene"
where
  "rotateZ ml n theta s = rotate3d ml n theta (vec_Z_AXIS ml) s"

subsection \<open>Object3D: hierarchy\<close>

definition hasChild :: "('v, 'q, 'm) scene \<Rightarrow> nat \<Rightarrow> nat \<Rightarrow> bool" where
  "hasChild s n c = (c \<in> set (children (nodes s n)))"

text \<open>
  \<open>addChild\<close> throws when the object has a parent: the result is the error and the
  scene as it is at the throw.  The warning written through \<open>wl\<close> goes to the console
  and is not part of the scene.
\<close>

definition addChild ::
  "nat \<Rightarrow> nat \<Rightarrow> ('v, 'q, 'm) scene \<Rightarrow> (error + unit) \<times> ('v, 'q, 'm) scene"
where
  "addChild n c s =
     (if parent (nodes s c) \<noteq> None then (Inl AlreadyHasParent, s)
      else if hasChild s n c then (Inr (), s)
      else
        let s1 = modify n (\<lambda>ob. ob\<lparr>children := children ob @ [c]\<rparr>) s;
            s2 = set_parent c (Some n) s1
        in (Inr (), notify n ''add'' [Obj n, Obj c] s2))"

text \<open>The argument of \<open>removeChild\<close> may be \<open>undefined\<close> (\<open>None\<close>).\<close>

definition removeChild ::
  "nat \<Rightarrow> nat option \<Rightarrow> ('v, 'q, 'm) scene \<Rightarrow> bool \<times> ('v, 'q, 'm) scene"
where
  "removeChild n obj s =
     (case obj of
        None \<Rightarrow> (False, s)
      | Some c \<Rightarrow>
          if \<not> hasChild s n c then (False, s)
          else
            let s1 = modify n (\<lambda>ob. ob\<lparr>children := removeAll c (children ob)\<rparr>) s;
                s2 = set_parent c None s1
            in (True, notify n ''remove'' [Obj n, Obj c] s2))"

text \<open>
  \<open>for (let child of this._children)\<close> with a body that deletes from \<open>_children\<close>: the
  iterator of a \<open>Set\<close> visits, in insertion order, every entry that is still in the set
  when the iterator reaches it.  No body in this class adds an entry, so the loop runs
  over the entries at its start and skips those deleted in the meantime.
\<close>

fun clearChildren_loop :: "nat \<Rightarrow> nat list \<Rightarrow> ('v, 'q, 'm) scene \<Rightarrow> ('v, 'q, 'm) scene" where
  "clearChildren_loop n [] s = s"
| "clearChildren_loop n (c # cs) s =
     (if hasChild s n c then clearChildren_loop n cs (snd (removeChild n (Some c) s))
      else clearChildren_loop n cs s)"

definition clearChildren :: "nat \<Rightarrow> ('v, 'q, 'm) scene \<Rightarrow> ('v, 'q, 'm) scene" where
  "clearChildren n s = clearChildren_loop n (children (nodes s n)) s"

text \<open>
  \<open>destroy\<close> calls itself on every child, and nothing in the class keeps the hierarchy
  free of cycles, so the recursion is bounded by fuel: \<open>None\<close> is a call that has not
  returned within it.
\<close>

fun destroy :: "nat \<Rightarrow> nat \<Rightarrow> ('v, 'q, 'm) scene \<Rightarrow> ('v, 'q, 'm) scene option"
  and destroy_loop :: "nat \<Rightarrow> nat \<Rightarrow> nat list \<Rightarrow> ('v, 'q, 'm) scene \<Rightarrow> ('v, 'q, 'm) scene option"
where
  "destroy 0 n s = None"
| "destroy (Suc fuel) n s =
     (let s1 = (case parent (nodes s n) of
                  Some p \<Rightarrow> snd (removeChild p (Some n) s)
                | None \<Rightarrow> s);
          s2 = clearListeners n s1
      in case destroy_loop fuel n (children (nodes s2 n)) s2 of
           None \<Rightarrow> None
         | Some s3 \<Rightarrow> Some (notify n ''destroy'' [] s3))"
| "destroy_loop fuel n [] s = Some s"
| "destroy_loop fuel n (c # cs) s =
     (if hasChild s n c then
        (case destroy fuel c (snd (removeChild n (Some c) s)) of
           None \<Rightarrow> None
         | Some s' \<Rightarrow> destroy_loop fuel n cs s')
      else destroy_loop fuel n cs s)"

subsection \<open>Object3D: revalidation and update\<close>

definition computeWorldModel ::
  "('r, 'v, 'q, 'm) mathlib \<Rightarrow> nat \<Rightarrow> ('v, 'q, 'm) scene \<Rightarrow> ('v, 'q, 'm) scene"
where
  "computeWorldModel ml n s =
     (case parent (nodes s n) of
        Some p \<Rightarrow>
          modify n (\<lambda>ob. ob\<lparr>world_model := mat_multiply ml (world_model (nodes s p)) (local_model ob)\<rparr>) s
      | None \<Rightarrow> modify n (\<lambda>ob. ob\<lparr>world_model := local_model ob\<rparr>) s)"

definition compose_local :: "('r, 'v, 'q, 'm) mathlib \<Rightarrow> ('v, 'q, 'm) object3d \<Rightarrow> 'm" where
  "compose_local ml ob =
     mat_scaleVec ml (mat_rotateQuat ml (mat_translate ml (mat_identity ml) (origin ob)) (orientation ob))
       (scale ob)"

definition revalidateModel ::
  "('r, 'v, 'q, 'm) mathlib \<Rightarrow> nat \<Rightarrow> ('v, 'q, 'm) scene \<Rightarrow> ('v, 'q, 'm) scene"
where
  "revalidateModel ml n s =
     (let localModelChanged = \<not> is_local_model_valid (nodes s n);
          s1 = (if localModelChanged
                then modify n (\<lambda>ob. ob\<lparr>local_model := compose_local ml ob, is_local_model_valid := True\<rparr>) s
                else s);
          s2 = computeWorldModel ml n s1;
          s3 = modify n (\<lambda>ob. ob\<lparr>is_model_valid := True\<rparr>) s2;
          s4 = fold invalidateModel (children (nodes s3 n)) s3;
          s5 = (if localModelChanged then notify n ''localModel'' [Mat (local_model (nodes s4 n))] s4
                else s4)
      in notify n ''model'' [Mat (world_model (nodes s5 n))] s5)"

text \<open>
  \<open>update(delta_t)\<close> passes \<open>delta_t\<close> on to the children and does nothing else with it;
  the model leaves it out.  The recursion follows \<open>_children\<close> and is bounded by fuel.
\<close>

fun update :: "('r, 'v, 'q, 'm) mathlib \<Rightarrow> nat \<Rightarrow> nat \<Rightarrow> ('v, 'q, 'm) scene \<Rightarrow> ('v, 'q, 'm) scene option"
  and update_loop ::
    "('r, 'v, 'q, 'm) mathlib \<Rightarrow> nat \<Rightarrow> nat \<Rightarrow> nat list \<Rightarrow> ('v, 'q, 'm) scene \<Rightarrow> ('v, 'q, 'm) scene option"
where
  "update ml 0 n s = None"
| "update ml (Suc fuel) n s =
     (let s1 = (if \<not> is_model_valid (nodes s n) then revalidateModel ml n s else s)
      in update_loop ml fuel n (children (nodes s1 n)) s1)"
| "update_loop ml fuel n [] s = Some s"
| "update_loop ml fuel n (c # cs) s =
     (if hasChild s n c then
        (case update ml fuel c s of
           None \<Rightarrow> None
         | Some s' \<Rightarrow> update_loop ml fuel n cs s')
      else update_loop ml fuel n cs s)"

section \<open>Running the interface\<close>

text \<open>
  A call of the public interface of \<open>Object3D\<close> and \<open>Listenable\<close>.  \<open>SetParent\<close> is the
  setter \<open>parent\<close>, which \<open>addChild\<close> and \<open>removeChild\<close> use and which is public as well.
\<close>

datatype ('r, 'v, 'q) call =
    SetName nat string
  | SetParent nat "nat option"
  | SetOrigin nat 'v
  | SetOrientation nat 'q
  | SetSize nat 'v
  | ScaleBy nat 'v
  | Translate nat 'v
  | TranslateX nat 'r
  | TranslateY nat 'r
  | TranslateZ nat 'r
  | Rotate nat 'r 'v
  | RotateX nat 'r
  | RotateY nat 'r
  | RotateZ nat 'r
  | AddChild nat nat
  | RemoveChild nat "nat option"
  | ClearChildren nat
  | Update nat
  | Destroy nat
  | On nat string nat
  | ClearListeners nat

text \<open>
  \<open>exec\<close> is the scene after one call, whether the call returned or threw (\<open>addChild\<close>);
  it is \<open>None\<close> when the call has not returned within the fuel.  \<open>run\<close> executes
  a sequence of calls.
\<close>

fun exec ::
  "('r, 'v, 'q, 'm) mathlib \<Rightarrow> nat \<Rightarrow> ('r, 'v, 'q) call \<Rightarrow> ('v, 'q, 'm) scene \<Rightarrow> ('v, 'q, 'm) scene option"
where
  "exec ml fuel (SetName n nm) s = Some (modify n (\<lambda>ob. ob\<lparr>name := nm\<rparr>) s)"
| "exec ml fuel (SetParent n p) s = Some (set_parent n p s)"
| "exec ml fuel (SetOrigin n v) s = Some (set_origin n v s)"
| "exec ml fuel (SetOrientation n q) s = Some (set_orientation n q s)"
| "exec ml fuel (SetSize n v) s = Some (set_size n v s)"
| "exec ml fuel (ScaleBy n v) s = Some (scaleBy ml n v s)"
| "exec ml fuel (Translate n v) s = Some (translate ml n v s)"
| "exec ml fuel (TranslateX n d) s = Some (translateX ml n d s)"
| "exec ml fuel (TranslateY n d) s = Some (translateY ml n d s)"
| "exec ml fuel (TranslateZ n d) s = Some (translateZ ml n d s)"
| "exec ml fuel (Rotate n theta axis) s = Some (rotate3d ml n theta axis s)"
| "exec ml fuel (RotateX n theta) s = Some (rotateX ml n theta s)"
| "exec ml fuel (RotateY n theta) s = Some (rotateY ml n theta s)"
| "exec ml fuel (RotateZ n theta) s = Some (rotateZ ml n theta s)"
| "exec ml fuel (AddChild n c) s = Some (snd (addChild n c s))"
| "exec ml fuel (RemoveChild n obj) s = Some (snd (removeChild n obj s))"
| "exec ml fuel (ClearChildren n) s = Some (clearChildren n s)"
| "exec ml fuel (Update n) s = update ml fuel n s"
| "exec ml fuel (Destroy n) s = destroy fuel n s"
| "exec ml fuel (On n ev cb) s = Some (on n ev cb s)"
| "exec ml fuel (ClearListeners n) s = Some (clearListeners n s)"

fun run ::
  "('r, 'v, 'q, 'm) mathlib \<Rightarrow> nat \<Rightarrow> ('r, 'v, 'q) call list \<Rightarrow> ('v, 'q, 'm) scene \<Rightarrow> ('v, 'q, 'm) scene option"
where
  "run ml fuel [] s = Some s"
| "run ml fuel (c # cs) s =
     (case exec ml fuel c s of None \<Rightarrow> None | Some s' \<Rightarrow> run ml fuel cs s')"

fun sets_parent :: "('r, 'v, 'q) call \<Rightarrow> bool" where
  "sets_parent (SetParent n p) = True"
| "sets_parent c = False"

text \<open>\<open>transforms c a\<close>: the call \<open>c\<close> is one of the property mutators, applied to \<open>a\<close>.\<close>

fun transforms :: "('r, 'v, 'q) call \<Rightarrow> nat \<Rightarrow> bool" where
  "transforms (SetOrigin n v) a = (n = a)"
| "transforms (SetOrientation n q) a = (n = a)"
| "transforms (SetSize n v) a = (n = a)"
| "transforms (ScaleBy n v) a = (n = a)"
| "transforms (Translate n v) a = (n = a)"
| "transforms (TranslateX n d) a = (n = a)"
| "transforms (TranslateY n d) a = (n = a)"
| "transforms (TranslateZ n d) a = (n = a)"
| "transforms (Rotate n theta axis) a = (n = a)"
| "transforms (RotateX n theta) a = (n = a)"
| "transforms (RotateY n theta) a = (n = a)"
| "transforms (RotateZ n theta) a = (n = a)"
| "transforms c a = False"

text \<open>
  A scene in which no method has been called yet: every object is as its constructor
  leaves it, with the arguments the program constructs it with, and nothing has been
  delivered.
\<close>

definition constructed :: "('r, 'v, 'q, 'm) mathlib \<Rightarrow> ('v, 'q, 'm) scene \<Rightarrow> bool" where
  "constructed ml s =
     (delivered s = [] \<and>
      (\<forall>n. \<exists>i nm org ori scl. nodes s n = Object3D ml i nm org ori scl))"

section \<open>Invariants\<close>

text \<open>
  \<open>struct_ok\<close>: an object is in the child set of exactly the object its \<open>parent\<close> names.
  \<open>flags_ok\<close>: a valid world model implies a valid local model.
  \<open>local_ok\<close>: a local model flagged valid is the composition of the current origin,
  orientation and scale.
  \<open>world_ok\<close>: a world model flagged valid is the local model for an object without
  parent, and the parent's world model times the local model when the parent's world
  model is flagged valid too.
\<close>

definition struct_ok :: "('v, 'q, 'm) scene \<Rightarrow> bool" where
  "struct_ok s = (\<forall>n c. hasChild s n c \<longleftrightarrow> parent (nodes s c) = Some n)"

definition flags_ok :: "('v, 'q, 'm) scene \<Rightarrow> bool" where
  "flags_ok s = (\<forall>n. is_model_valid (nodes s n) \<longrightarrow> is_local_model_valid (nodes s n))"

definition local_ok :: "('r, 'v, 'q, 'm) mathlib \<Rightarrow> ('v, 'q, 'm) scene \<Rightarrow> bool" where
  "local_ok ml s =
     (\<forall>n. is_local_model_valid (nodes s n) \<longrightarrow> local_model (nodes s n) = compose_local ml (nodes s n))"

definition world_ok :: "('r, 'v, 'q, 'm) mathlib \<Rightarrow> ('v, 'q, 'm) scene \<Rightarrow> bool" where
  "world_ok ml s =
     (\<forall>n. is_model_valid (nodes s n) \<longrightarrow>
          (parent (nodes s n) = None \<longrightarrow> world_model (nodes s n) = local_model (nodes s n)) \<and>
          (\<forall>p. parent (nodes s n) = Some p \<longrightarrow> is_model_valid (nodes s p) \<longrightarrow>
               world_model (nodes s n) = mat_multiply ml (world_model (nodes s p)) (local_model (nodes s n))))"

definition hierarchy_ok :: "('r, 'v, 'q, 'm) mathlib \<Rightarrow> ('v, 'q, 'm) scene \<Rightarrow> bool" where
  "hierarchy_ok ml s = (struct_ok s \<and> world_ok ml s)"

text \<open>The object \<open>n\<close> as \<open>revalidateModel\<close> leaves it.\<close>

definition revalidated :: "('r, 'v, 'q, 'm) mathlib \<Rightarrow> ('v, 'q, 'm) scene \<Rightarrow> nat \<Rightarrow> ('v, 'q, 'm) object3d" where
  "revalidated ml s n =
     (let ob = nodes s n;
          L = (if is_local_model_valid ob then local_model ob else compose_local ml ob)
      in ob\<lparr>local_model := L, is_local_model_valid := True,
            world_model := (case parent ob of None \<Rightarrow> L
                            | Some p \<Rightarrow> mat_multiply ml (world_model (nodes s p)) L),
            is_model_valid := n \<notin> set (children ob)\<rparr>)"

text \<open>
  The hierarchy below an object: \<open>descends s r d\<close> when \<open>d\<close> is \<open>r\<close> or is reached from
  \<open>r\<close> through child sets.  \<open>ranked h s\<close>: the rank \<open>h\<close> decreases from every object to
  its children, so the hierarchy has no cycle and the recursion of \<open>update\<close> and
  \<open>destroy\<close> from an object \<open>n\<close> ends within \<open>h n + 1\<close> nested calls.
\<close>

definition descends :: "('v, 'q, 'm) scene \<Rightarrow> nat \<Rightarrow> nat \<Rightarrow> bool" where
  "descends s r d = (hasChild s)\<^sup>*\<^sup>* r d"

definition ranked :: "(nat \<Rightarrow> nat) \<Rightarrow> ('v, 'q, 'm) scene \<Rightarrow> bool" where
  "ranked h s = (\<forall>n c. hasChild s n c \<longrightarrow> h c < h n)"

text \<open>
  \<open>settled s n\<close>: the world models of \<open>n\<close> and of all its ancestors are flagged valid.
  \<open>composed_world\<close> is what \<open>computeWorldModel\<close> would store for \<open>n\<close> now.
\<close>

inductive settled :: "('v, 'q, 'm) scene \<Rightarrow> nat \<Rightarrow> bool" for s :: "('v, 'q, 'm) scene" where
  root: "is_model_valid (nodes s n) \<Longrightarrow> parent (nodes s n) = None \<Longrightarrow> settled s n"
| child: "is_model_valid (nodes s n) \<Longrightarrow> parent (nodes s n) = Some p \<Longrightarrow> settled s p \<Longrightarrow> settled s n"

definition composed_world :: "('r, 'v, 'q, 'm) mathlib \<Rightarrow> ('v, 'q, 'm) scene \<Rightarrow> nat \<Rightarrow> 'm" where
  "composed_world ml s n =
     (case parent (nodes s n) of
        None \<Rightarrow> local_model (nodes s n)
      | Some p \<Rightarrow> mat_multiply ml (world_model (nodes s p)) (local_model (nodes s n)))"

text \<open>
  \<open>detach\<close> is the first statement of \<open>destroy\<close>.  \<open>silent s n\<close>: no callback is registered
  on \<open>n\<close>.  \<open>destroyed s d\<close>: \<open>d\<close> has no parent, no child and no listener.
\<close>

definition detach :: "nat \<Rightarrow> ('v, 'q, 'm) scene \<Rightarrow> ('v, 'q, 'm) scene" where
  "detach n s = (case parent (nodes s n) of Some p \<Rightarrow> snd (removeChild p (Some n) s) | None \<Rightarrow> s)"

definition silent :: "('v, 'q, 'm) scene \<Rightarrow> nat \<Rightarrow> bool" where
  "silent s n = (\<forall>ev. listeners (nodes s n) ev = [])"

definition destroyed :: "('v, 'q, 'm) scene \<Rightarrow> nat \<Rightarrow> bool" where
  "destroyed s d =
     (parent (nodes s d) = None \<and> children (nodes s d) = [] \<and> (\<forall>ev. listeners (nodes s d) ev = []))"

section \<open>A symbolic math library and concrete scenes\<close>

text \<open>
  To run the model, numbers, vectors and quaternions are integers and a matrix is the
  list of the elementary transforms whose product it is, so that the order of the
  factors stays visible.  \<open>blank\<close> is a scene of freshly constructed objects with origin
  0, orientation 0 and scale 1; the call sequences below build small hierarchies in it:
  \<open>demo\<close> and \<open>warm\<close> the chain 0, 1, 2 (updated once, and in \<open>demo\<close> then mutated at 1),
  \<open>family\<close> a root with two children of which one is destroyed, \<open>clan\<close> an object 1
  under 0 with the subtree 2, 3, 4 of depth 2 below it, \<open>audience\<close> the chain 0, 1, 2 with
  listeners.
\<close>

datatype sym = Tmat int | Rmat int | Smat int

definition symbolic :: "(int, int, int, sym list) mathlib" where
  "symbolic =
     \<lparr>vec_add = (+), vec_multiply = (*),
      vec_translateX = (+), vec_translateY = (+), vec_translateZ = (+),
      vec_X_AXIS = 1, vec_Y_AXIS = 2, vec_Z_AXIS = 3,
      quat_new = 0, quat_fromAxisRotation = (*), quat_multiply = (+),
      mat_identity = [],
      mat_translate = (\<lambda>M v. M @ [Tmat v]),
      mat_rotateQuat = (\<lambda>M q. M @ [Rmat q]),
      mat_scaleVec = (\<lambda>M v. M @ [Smat v]),
      mat_multiply = (@),
      mat_Translate = (\<lambda>v. [Tmat v]),
      mat_Rotate = (\<lambda>q. [Rmat q]),
      mat_Scale = (\<lambda>v. [Smat v])\<rparr>"

definition blank :: "(int, int, sym list) scene" where
  "blank = \<lparr>nodes = (\<lambda>n. Object3D symbolic [] [] 0 0 1), delivered = []\<rparr>"

definition demo :: "(int, int, int) call list" where
  "demo = [AddChild 0 1, AddChild 1 2, Update 0, SetOrigin 1 5, TranslateX 1 2, RotateZ 1 4, ScaleBy 1 3]"

definition family :: "(int, int, int) call list" where
  "family = [AddChild 0 1, AddChild 1 2, AddChild 0 3, Destroy 1]"

definition warm :: "(int, int, int) call list" where
  "warm = [AddChild 0 1, AddChild 1 2, Update 0]"

definition clan :: "(int, int, int) call list" where
  "clan = [AddChild 0 1, AddChild 1 2, AddChild 1 3, AddChild 2 4,
      On 1 ''destroy'' 11, On 2 ''remove'' 12, On 4 ''model'' 13]"

definition audience :: "(int, int, int) call list" where
  "audience = [AddChild 0 1, AddChild 1 2, On 0 ''remove'' 10, On 1 ''destroy'' 11, On 1 ''remove'' 12,
     On 2 ''destroy'' 13]"

section \<open>Lemmas\<close>

subsection \<open>Effects of the operations and preservation of the invariants\<close>

lemma nodes_modify [simp]: "nodes (modify n f s) = (nodes s)(n := f (nodes s n))"
  by (simp add: modify_def)

lemma delivered_modify [simp]: "delivered (modify n f s) = delivered s"
  by (simp add: modify_def)

lemma nodes_notify [simp]: "nodes (notify n ev as s) = nodes s"
  by (simp add: notify_def)

lemma delivered_notify:
  "delivered (notify n ev as s) =
     delivered s @ map (\<lambda>cb. \<lparr>emitter = n, event = ev, callback = cb, args = as\<rparr>) (listeners (nodes s n) ev)"
  by (simp add: notify_def)

lemmas flag_defs = invalidateModel_def invalidateLocalModel_def set_parent_def

lemmas mutator_defs =
  set_origin_def set_orientation_def set_size_def scaleBy_def translate_def
  translateX_def translateY_def translateZ_def rotate3d_def rotateX_def rotateY_def rotateZ_def

lemma nodes_fold_invalidateModel:
  "nodes (fold invalidateModel cs s) m =
     (if m \<in> set cs then (nodes s m)\<lparr>is_model_valid := False\<rparr> else nodes s m)"
  by (induction cs arbitrary: s) (auto simp: invalidateModel_def)

lemma delivered_fold_invalidateModel [simp]:
  "delivered (fold invalidateModel cs s) = delivered s"
  by (induction cs arbitrary: s) (auto simp: invalidateModel_def)

lemma nodes_revalidateModel:
  "nodes (revalidateModel ml n s) m =
     (if m = n then revalidated ml s n
      else if m \<in> set (children (nodes s n)) then (nodes s m)\<lparr>is_model_valid := False\<rparr>
      else nodes s m)"
  by (auto simp: revalidateModel_def revalidated_def computeWorldModel_def Let_def
      nodes_fold_invalidateModel compose_local_def split: option.splits)

lemma flags_ok_notify [simp]: "flags_ok (notify n ev as s) = flags_ok s"
  by (simp add: flags_ok_def)

lemma local_ok_notify [simp]: "local_ok ml (notify n ev as s) = local_ok ml s"
  by (simp add: local_ok_def)

lemma struct_ok_notify [simp]: "struct_ok (notify n ev as s) = struct_ok s"
  by (simp add: struct_ok_def hasChild_def)

lemma world_ok_notify [simp]: "world_ok ml (notify n ev as s) = world_ok ml s"
  by (simp add: world_ok_def)

lemma flags_ok_mutators:
  assumes "flags_ok s"
  shows "flags_ok (set_origin n v s)" "flags_ok (set_orientation n q s)" "flags_ok (set_size n v s)"
    "flags_ok (scaleBy ml n v s)" "flags_ok (translate ml n v s)" "flags_ok (translateX ml n d s)"
    "flags_ok (translateY ml n d s)" "flags_ok (translateZ ml n d s)"
    "flags_ok (rotate3d ml n d v s)"
  using assms by (simp_all add: mutator_defs flag_defs Let_def flags_ok_def)

lemma flags_ok_others:
  assumes "flags_ok s"
  shows "flags_ok (set_parent n p s)" "flags_ok (snd (addChild n c s))"
    "flags_ok (snd (removeChild n obj s))" "flags_ok (on n ev cb s)" "flags_ok (clearListeners n s)"
    "flags_ok (modify n (\<lambda>ob. ob\<lparr>name := nm\<rparr>) s)"
  using assms
  by (simp_all add: addChild_def removeChild_def on_def clearListeners_def flag_defs Let_def
      flags_ok_def split: option.splits)

lemma flags_ok_revalidateModel: "flags_ok s \<Longrightarrow> flags_ok (revalidateModel ml n s)"
  by (simp add: flags_ok_def nodes_revalidateModel revalidated_def Let_def)

lemma local_ok_mutators:
  assumes "local_ok ml s"
  shows "local_ok ml (set_origin n v s)" "local_ok ml (set_orientation n q s)"
    "local_ok ml (set_size n v s)"
    "local_ok ml (scaleBy ml n v s)" "local_ok ml (translate ml n v s)"
    "local_ok ml (translateX ml n d s)"
    "local_ok ml (translateY ml n d s)" "local_ok ml (translateZ ml n d s)"
    "local_ok ml (rotate3d ml n d v s)"
  using assms by (simp_all add: mutator_defs flag_defs Let_def local_ok_def)

lemma local_ok_others:
  assumes "local_ok ml s"
  shows "local_ok ml (set_parent n p s)" "local_ok ml (snd (addChild n c s))"
    "local_ok ml (snd (removeChild n obj s))" "local_ok ml (on n ev cb s)"
    "local_ok ml (clearListeners n s)"
    "local_ok ml (modify n (\<lambda>ob. ob\<lparr>name := nm\<rparr>) s)"
  using assms
  by (simp_all add: addChild_def removeChild_def on_def clearListeners_def flag_defs Let_def
      local_ok_def compose_local_def split: option.splits)

lemma local_ok_revalidateModel: "local_ok ml s \<Longrightarrow> local_ok ml (revalidateModel ml n s)"
  by (simp add: local_ok_def nodes_revalidateModel revalidated_def Let_def compose_local_def)

lemma struct_ok_mutators:
  assumes "struct_ok s"
  shows "struct_ok (set_origin n v s)" "struct_ok (set_orientation n q s)"
    "struct_ok (set_size n v s)"
    "struct_ok (scaleBy ml n v s)" "struct_ok (translate ml n v s)"
    "struct_ok (translateX ml n d s)"
    "struct_ok (translateY ml n d s)" "struct_ok (translateZ ml n d s)"
    "struct_ok (rotate3d ml n d v s)"
  using assms by (simp_all add: mutator_defs flag_defs Let_def struct_ok_def hasChild_def)

lemma struct_ok_listen:
  assumes "struct_ok s"
  shows "struct_ok (on n ev cb s)" "struct_ok (clearListeners n s)"
    "struct_ok (modify n (\<lambda>ob. ob\<lparr>name := nm\<rparr>) s)"
  using assms
  by (simp_all add: on_def clearListeners_def struct_ok_def hasChild_def)

lemma children_addChild:
  "children (nodes (snd (addChild n c s)) m) =
     (if m = n \<and> parent (nodes s c) = None \<and> c \<notin> set (children (nodes s n))
      then children (nodes s n) @ [c] else children (nodes s m))"
  by (simp add: addChild_def flag_defs Let_def hasChild_def)

lemma parent_addChild:
  "parent (nodes (snd (addChild n c s)) m) =
     (if m = c \<and> parent (nodes s c) = None \<and> c \<notin> set (children (nodes s n))
      then Some n else parent (nodes s m))"
  by (simp add: addChild_def flag_defs Let_def hasChild_def)

lemma children_removeChild:
  "children (nodes (snd (removeChild n (Some c) s)) m) =
     (if m = n then removeAll c (children (nodes s n)) else children (nodes s m))"
  by (simp add: removeChild_def flag_defs Let_def hasChild_def)

lemma parent_removeChild:
  "parent (nodes (snd (removeChild n (Some c) s)) m) =
     (if m = c \<and> c \<in> set (children (nodes s n)) then None else parent (nodes s m))"
  by (simp add: removeChild_def flag_defs Let_def hasChild_def)

lemma removeChild_None [simp]: "removeChild n None s = (False, s)"
  by (simp add: removeChild_def)

lemma struct_ok_addChild: "struct_ok s \<Longrightarrow> struct_ok (snd (addChild n c s))"
  unfolding struct_ok_def hasChild_def children_addChild parent_addChild
  by auto

lemma struct_ok_removeChild: "struct_ok s \<Longrightarrow> struct_ok (snd (removeChild n obj s))"
proof (cases obj)
  case None
  assume "struct_ok s"
  with None show ?thesis by simp
next
  case (Some c)
  assume "struct_ok s"
  then show ?thesis
    unfolding Some struct_ok_def hasChild_def children_removeChild parent_removeChild
    by auto
qed

lemma struct_ok_revalidateModel: "struct_ok s \<Longrightarrow> struct_ok (revalidateModel ml n s)"
  by (simp add: struct_ok_def hasChild_def nodes_revalidateModel revalidated_def Let_def)

lemma world_ok_invalidate:
  assumes w: "world_ok ml s"
    and inv: "\<not> is_model_valid (nodes s' c)"
    and same: "\<And>m. m \<noteq> c \<Longrightarrow>
        is_model_valid (nodes s' m) = is_model_valid (nodes s m) \<and>
        parent (nodes s' m) = parent (nodes s m) \<and>
        world_model (nodes s' m) = world_model (nodes s m) \<and>
        local_model (nodes s' m) = local_model (nodes s m)"
  shows "world_ok ml s'"
  unfolding world_ok_def
proof (intro allI impI)
  fix m
  assume v: "is_model_valid (nodes s' m)"
  with inv have mc: "m \<noteq> c" by auto
  from v same [OF mc] have v0: "is_model_valid (nodes s m)" by simp
  have "world_model (nodes s m) = mat_multiply ml (world_model (nodes s' p)) (local_model (nodes s m))"
    if p: "parent (nodes s m) = Some p" and vp: "is_model_valid (nodes s' p)" for p
  proof -
    from vp inv have pc: "p \<noteq> c" by auto
    with vp same [OF pc] have "is_model_valid (nodes s p)" by simp
    with w v0 p have "world_model (nodes s m) = mat_multiply ml (world_model (nodes s p)) (local_model (nodes s m))"
      by (simp add: world_ok_def)
    with same [OF pc] show ?thesis by simp
  qed
  moreover from w v0 have "parent (nodes s m) = None \<longrightarrow> world_model (nodes s m) = local_model (nodes s m)"
    by (simp add: world_ok_def)
  ultimately show "(parent (nodes s' m) = None \<longrightarrow> world_model (nodes s' m) = local_model (nodes s' m)) \<and>
        (\<forall>p. parent (nodes s' m) = Some p \<longrightarrow> is_model_valid (nodes s' p) \<longrightarrow>
           world_model (nodes s' m) =
           mat_multiply ml (world_model (nodes s' p)) (local_model (nodes s' m)))"
    using same [OF mc] by simp
qed

lemma world_ok_same:
  assumes w: "world_ok ml s"
    and same: "\<And>m.
        is_model_valid (nodes s' m) = is_model_valid (nodes s m) \<and>
        parent (nodes s' m) = parent (nodes s m) \<and>
        world_model (nodes s' m) = world_model (nodes s m) \<and>
        local_model (nodes s' m) = local_model (nodes s m)"
  shows "world_ok ml s'"
  using w unfolding world_ok_def by (simp add: same)

lemma world_ok_mutators:
  assumes "world_ok ml s"
  shows "world_ok ml (set_origin n v s)" "world_ok ml (set_orientation n q s)"
    "world_ok ml (set_size n v s)"
    "world_ok ml (scaleBy ml n v s)" "world_ok ml (translate ml n v s)"
    "world_ok ml (translateX ml n d s)"
    "world_ok ml (translateY ml n d s)" "world_ok ml (translateZ ml n d s)"
    "world_ok ml (rotate3d ml n d v s)"
  by (rule world_ok_invalidate [OF assms, where c = n];
      simp add: mutator_defs flag_defs Let_def)+

lemma world_ok_listen:
  assumes "world_ok ml s"
  shows "world_ok ml (on n ev cb s)"
    "world_ok ml (clearListeners n s)"
    "world_ok ml (modify n (\<lambda>ob. ob\<lparr>name := nm\<rparr>) s)"
  by (rule world_ok_same [OF assms]; simp add: on_def clearListeners_def)+

lemma world_ok_addChild:
  assumes "world_ok ml s" shows "world_ok ml (snd (addChild n c s))"
proof (cases "parent (nodes s c) = None \<and> c \<notin> set (children (nodes s n))")
  case True
  then show ?thesis
    by (intro world_ok_invalidate [OF assms, where c = c];
        simp add: addChild_def flag_defs Let_def hasChild_def)
next
  case False
  with assms show ?thesis
    by (auto simp: addChild_def hasChild_def)
qed

lemma world_ok_removeChild:
  assumes "world_ok ml s" shows "world_ok ml (snd (removeChild n obj s))"
proof (cases "\<exists>c. obj = Some c \<and> c \<in> set (children (nodes s n))")
  case True
  then obtain c where "obj = Some c" "c \<in> set (children (nodes s n))" by auto
  then show ?thesis
    by (intro world_ok_invalidate [OF assms, where c = c];
        simp add: removeChild_def flag_defs Let_def hasChild_def)
next
  case False
  with assms show ?thesis
    by (cases obj) (auto simp: removeChild_def hasChild_def)
qed

lemma world_ok_revalidateModel:
  assumes st: "struct_ok s" and w: "world_ok ml s"
  shows "world_ok ml (revalidateModel ml n s)"
  unfolding world_ok_def
proof (intro allI impI)
  fix m
  let ?s' = "revalidateModel ml n s"
  assume v: "is_model_valid (nodes ?s' m)"
  have other: "world_model (nodes ?s' k) = world_model (nodes s k)" if "k \<noteq> n" for k
    using that by (simp add: nodes_revalidateModel)
  show "(parent (nodes ?s' m) = None \<longrightarrow> world_model (nodes ?s' m) = local_model (nodes ?s' m)) \<and>
        (\<forall>p. parent (nodes ?s' m) = Some p \<longrightarrow> is_model_valid (nodes ?s' p) \<longrightarrow>
           world_model (nodes ?s' m) =
           mat_multiply ml (world_model (nodes ?s' p)) (local_model (nodes ?s' m)))"
  proof (cases "m = n")
    case True
    from v True have nself: "n \<notin> set (children (nodes s n))"
      by (simp add: nodes_revalidateModel revalidated_def Let_def)
    with st have "parent (nodes s n) \<noteq> Some n"
      by (simp add: struct_ok_def hasChild_def)
    then show ?thesis
      unfolding True
      by (auto simp: nodes_revalidateModel revalidated_def Let_def)
  next
    case False
    with v have notch: "m \<notin> set (children (nodes s n))" and same: "nodes ?s' m = nodes s m"
      and v0: "is_model_valid (nodes s m)"
      by (auto simp: nodes_revalidateModel split: if_splits)
    from notch st have pn: "parent (nodes s m) \<noteq> Some n"
      by (simp add: struct_ok_def hasChild_def)
    have "world_model (nodes s m) = mat_multiply ml (world_model (nodes ?s' p)) (local_model (nodes s m))"
      if p: "parent (nodes s m) = Some p" and vp: "is_model_valid (nodes ?s' p)" for p
    proof -
      from p pn have "p \<noteq> n" by auto
      with vp have "is_model_valid (nodes s p)"
        by (auto simp: nodes_revalidateModel split: if_splits)
      with w v0 p have "world_model (nodes s m) = mat_multiply ml (world_model (nodes s p)) (local_model (nodes s m))"
        by (simp add: world_ok_def)
      with other [OF \<open>p \<noteq> n\<close>] show ?thesis by simp
    qed
    moreover from w v0 have "parent (nodes s m) = None \<longrightarrow> world_model (nodes s m) = local_model (nodes s m)"
      by (simp add: world_ok_def)
    ultimately show ?thesis
      unfolding same by blast
  qed
qed

lemma clearChildren_loop_preserves:
  assumes rc: "\<And>n obj s. I s \<Longrightarrow> I (snd (removeChild n obj s))"
  shows "I s \<Longrightarrow> I (clearChildren_loop n cs s)"
  by (induction cs arbitrary: s) (auto intro: rc)

lemma destroy_preserves:
  assumes rc: "\<And>n obj s. I s \<Longrightarrow> I (snd (removeChild n obj s))"
    and cl: "\<And>n s. I s \<Longrightarrow> I (clearListeners n s)"
    and nt: "\<And>n ev as s. I s \<Longrightarrow> I (notify n ev as s)"
  shows "I s \<Longrightarrow> destroy fuel n s = Some s' \<Longrightarrow> I s'"
    and "I s \<Longrightarrow> destroy_loop fuel n cs s = Some s' \<Longrightarrow> I s'"
proof (induction fuel n s and fuel n cs s arbitrary: s' and s' rule: destroy_destroy_loop.induct)
  case (1 n s)
  then show ?case by simp
next
  case (2 fuel n s)
  let ?s1 = "case parent (nodes s n) of Some p \<Rightarrow> snd (removeChild p (Some n) s) | None \<Rightarrow> s"
  let ?s2 = "clearListeners n ?s1"
  from "2.prems"(1) have "I ?s1" by (auto split: option.splits intro: rc)
  then have i2: "I ?s2" by (rule cl)
  from "2.prems"(2) obtain s3 where l: "destroy_loop fuel n (children (nodes ?s2 n)) ?s2 = Some s3"
    and s': "s' = notify n ''destroy'' [] s3"
    by (auto simp: Let_def split: option.splits)
  from "2.IH" [OF refl refl i2 l] have "I s3" .
  with s' show ?case by (simp add: nt)
next
  case (3 fuel n s)
  then show ?case by simp
next
  case (4 fuel n c cs s)
  show ?case
  proof (cases "hasChild s n c")
    case True
    let ?s1 = "snd (removeChild n (Some c) s)"
    from "4.prems"(2) True obtain s2 where d: "destroy fuel c ?s1 = Some s2"
      and l: "destroy_loop fuel n cs s2 = Some s'"
      by (auto split: option.splits)
    from "4.prems"(1) have "I ?s1" by (rule rc)
    from "4.IH"(1) [OF True this d] have "I s2" .
    from "4.IH"(2) [OF True d this l] show ?thesis .
  next
    case False
    with "4.prems" "4.IH"(3) show ?thesis by simp
  qed
qed

lemma update_preserves_invalid:
  shows "I s \<Longrightarrow> update ml fuel n s = Some s' \<Longrightarrow>
      (\<And>n s. I s \<Longrightarrow> \<not> is_model_valid (nodes s n) \<Longrightarrow> I (revalidateModel ml n s)) \<Longrightarrow> I s'"
    and "I s \<Longrightarrow> update_loop ml fuel n cs s = Some s' \<Longrightarrow>
      (\<And>n s. I s \<Longrightarrow> \<not> is_model_valid (nodes s n) \<Longrightarrow> I (revalidateModel ml n s)) \<Longrightarrow> I s'"
proof (induction ml fuel n s and ml fuel n cs s arbitrary: s' and s' rule: update_update_loop.induct)
  case (1 ml n s)
  then show ?case by simp
next
  case (2 ml fuel n s)
  let ?s1 = "if \<not> is_model_valid (nodes s n) then revalidateModel ml n s else s"
  from "2.prems"(1) have i1: "I ?s1" by (simp add: "2.prems"(3))
  from "2.prems"(2) have l: "update_loop ml fuel n (children (nodes ?s1 n)) ?s1 = Some s'"
    by (simp add: Let_def)
  from "2.IH" [OF refl i1 l "2.prems"(3)] show ?case .
next
  case (3 ml fuel n s)
  then show ?case by simp
next
  case (4 ml fuel n c cs s)
  show ?case
  proof (cases "hasChild s n c")
    case True
    from "4.prems"(2) True obtain s2 where d: "update ml fuel c s = Some s2"
      and l: "update_loop ml fuel n cs s2 = Some s'"
      by (auto split: option.splits)
    from "4.IH"(1) [OF True "4.prems"(1) d "4.prems"(3)] have "I s2" .
    from "4.IH"(2) [OF True d this l "4.prems"(3)] show ?thesis .
  next
    case False
    with "4.prems" "4.IH"(3) show ?thesis by simp
  qed
qed

lemma update_preserves:
  assumes "\<And>n s. I s \<Longrightarrow> I (revalidateModel ml n s)"
  shows "I s \<Longrightarrow> update ml fuel n s = Some s' \<Longrightarrow> I s'"
  using update_preserves_invalid(1) [of I s ml fuel n s'] assms by blast

lemmas rotate_axis_defs = rotateX_def rotateY_def rotateZ_def

lemma exec_flags_ok: "flags_ok s \<Longrightarrow> exec ml fuel c s = Some s' \<Longrightarrow> flags_ok s'"
proof (cases c)
  case (ClearChildren n)
  assume "flags_ok s" "exec ml fuel c s = Some s'"
  with ClearChildren show ?thesis
    by (auto simp: clearChildren_def intro: clearChildren_loop_preserves flags_ok_others)
next
  case (Update n)
  assume "flags_ok s" "exec ml fuel c s = Some s'"
  with Update show ?thesis
    by (auto intro: update_preserves [where I = flags_ok] flags_ok_revalidateModel)
next
  case (Destroy n)
  assume "flags_ok s" "exec ml fuel c s = Some s'"
  with Destroy show ?thesis
    by (auto intro: destroy_preserves(1) [where I = flags_ok] flags_ok_others)
qed (auto simp: rotate_axis_defs flags_ok_mutators flags_ok_others)

lemma exec_local_ok: "local_ok ml s \<Longrightarrow> exec ml fuel c s = Some s' \<Longrightarrow> local_ok ml s'"
proof (cases c)
  case (ClearChildren n)
  assume "local_ok ml s" "exec ml fuel c s = Some s'"
  with ClearChildren show ?thesis
    by (auto simp: clearChildren_def intro: clearChildren_loop_preserves local_ok_others)
next
  case (Update n)
  assume "local_ok ml s" "exec ml fuel c s = Some s'"
  with Update show ?thesis
    by (auto intro: update_preserves [where I = "local_ok ml"] local_ok_revalidateModel)
next
  case (Destroy n)
  assume "local_ok ml s" "exec ml fuel c s = Some s'"
  with Destroy show ?thesis
    by (auto intro: destroy_preserves(1) [where I = "local_ok ml"] local_ok_others)
qed (auto simp: rotate_axis_defs local_ok_mutators local_ok_others)

lemma hierarchy_ok_steps:
  assumes "hierarchy_ok ml s"
  shows "hierarchy_ok ml (snd (removeChild n obj s))"
    "hierarchy_ok ml (snd (addChild n c s))"
    "hierarchy_ok ml (clearListeners n s)"
    "hierarchy_ok ml (notify n ev as s)"
    "hierarchy_ok ml (revalidateModel ml n s)"
    "hierarchy_ok ml (on n ev cb s)"
    "hierarchy_ok ml (modify n (\<lambda>ob. ob\<lparr>name := nm\<rparr>) s)"
  using assms
  by (simp_all add: hierarchy_ok_def struct_ok_removeChild struct_ok_addChild struct_ok_listen
      struct_ok_revalidateModel world_ok_removeChild world_ok_addChild world_ok_listen
      world_ok_revalidateModel)

lemma hierarchy_ok_mutators:
  assumes "hierarchy_ok ml s"
  shows "hierarchy_ok ml (set_origin n v s)" "hierarchy_ok ml (set_orientation n q s)"
    "hierarchy_ok ml (set_size n v s)"
    "hierarchy_ok ml (scaleBy ml n v s)" "hierarchy_ok ml (translate ml n v s)"
    "hierarchy_ok ml (translateX ml n d s)"
    "hierarchy_ok ml (translateY ml n d s)" "hierarchy_ok ml (translateZ ml n d s)"
    "hierarchy_ok ml (rotate3d ml n d v s)"
  using assms by (simp_all add: hierarchy_ok_def struct_ok_mutators world_ok_mutators)

lemma exec_hierarchy_ok:
  "hierarchy_ok ml s \<Longrightarrow> \<not> sets_parent c \<Longrightarrow> exec ml fuel c s = Some s' \<Longrightarrow> hierarchy_ok ml s'"
proof (cases c)
  case (ClearChildren n)
  assume "hierarchy_ok ml s" "exec ml fuel c s = Some s'"
  with ClearChildren show ?thesis
    by (auto simp: clearChildren_def intro: clearChildren_loop_preserves hierarchy_ok_steps)
next
  case (Update n)
  assume "hierarchy_ok ml s" "exec ml fuel c s = Some s'"
  with Update show ?thesis
    by (auto intro: update_preserves [where I = "hierarchy_ok ml"] hierarchy_ok_steps)
next
  case (Destroy n)
  assume "hierarchy_ok ml s" "exec ml fuel c s = Some s'"
  with Destroy show ?thesis
    by (auto intro: destroy_preserves(1) [where I = "hierarchy_ok ml"] hierarchy_ok_steps)
qed (auto simp: rotate_axis_defs hierarchy_ok_mutators hierarchy_ok_steps)

lemma run_flags_ok: "flags_ok s \<Longrightarrow> run ml fuel cs s = Some s' \<Longrightarrow> flags_ok s'"
  by (induction cs arbitrary: s) (auto split: option.splits dest: exec_flags_ok)

lemma run_local_ok: "local_ok ml s \<Longrightarrow> run ml fuel cs s = Some s' \<Longrightarrow> local_ok ml s'"
  by (induction cs arbitrary: s) (auto split: option.splits dest: exec_local_ok)

lemma run_hierarchy_ok:
  "hierarchy_ok ml s \<Longrightarrow> list_all (\<lambda>c. \<not> sets_parent c) cs \<Longrightarrow> run ml fuel cs s = Some s' \<Longrightarrow>
     hierarchy_ok ml s'"
  by (induction cs arbitrary: s) (auto split: option.splits dest: exec_hierarchy_ok)

lemma constructed_ok:
  assumes "constructed ml s"
  shows "flags_ok s" "local_ok ml s" "hierarchy_ok ml s"
proof -
  from assms have n: "\<And>n. \<exists>i nm org ori scl. nodes s n = Object3D ml i nm org ori scl"
    by (simp add: constructed_def)
  have f: "\<not> is_model_valid (nodes s n) \<and> \<not> is_local_model_valid (nodes s n) \<and>
      parent (nodes s n) = None \<and> children (nodes s n) = []" for n
    using n [of n] by (auto simp: Object3D_def)
  show "flags_ok s" by (simp add: flags_ok_def f)
  show "local_ok ml s" by (simp add: local_ok_def f)
  show "hierarchy_ok ml s" by (simp add: hierarchy_ok_def struct_ok_def world_ok_def hasChild_def f)
qed

lemma update_keeps_transform:
  assumes "update ml fuel n (s :: ('v, 'q, 'm) scene) = Some s'"
  shows "origin (nodes s' m) = origin (nodes s m) \<and> orientation (nodes s' m) = orientation (nodes s m) \<and>
     scale (nodes s' m) = scale (nodes s m)"
proof -
  let ?I = "\<lambda>t :: ('v, 'q, 'm) scene. origin (nodes t m) = origin (nodes s m) \<and> orientation (nodes t m) = orientation (nodes s m) \<and>
     scale (nodes t m) = scale (nodes s m)"
  have "?I s'"
  proof (rule update_preserves [where I = ?I, OF _ _ assms])
    show "?I s" by simp
  next
    fix k t assume "?I t"
    then show "?I (revalidateModel ml k t)"
      by (auto simp: nodes_revalidateModel revalidated_def Let_def)
  qed
  then show ?thesis .
qed

lemma constructed_blank: "constructed symbolic blank"
proof -
  have "\<exists>i nm org ori scl. nodes blank n = Object3D symbolic i nm org ori scl" for n
    unfolding blank_def by (simp only: scene.simps) (intro exI, rule refl)
  then show ?thesis by (simp add: constructed_def) (simp add: blank_def)
qed

lemma post_multiplying_symbolic: "post_multiplying symbolic"
  by (simp add: post_multiplying_def symbolic_def)

lemmas eval_defs =
  blank_def symbolic_def Object3D_def modify_def notify_def on_def clearListeners_def
  invalidateModel_def invalidateLocalModel_def set_parent_def
  set_origin_def set_orientation_def set_size_def scaleBy_def translate_def
  translateX_def translateY_def translateZ_def rotate3d_def rotateX_def rotateY_def rotateZ_def
  hasChild_def addChild_def removeChild_def clearChildren_def
  computeWorldModel_def compose_local_def revalidateModel_def Let_def

lemma run_demo: "run symbolic 4 demo blank \<noteq> None"
  by code_simp

subsection \<open>Deliveries of \<open>destroy\<close>\<close>

lemma listeners_removeChild [simp]:
  "listeners (nodes (snd (removeChild n obj s)) m) = listeners (nodes s m)"
  by (cases obj) (simp_all add: removeChild_def flag_defs Let_def)

lemma silent_steps:
  assumes "silent s m"
  shows "silent (snd (removeChild n obj s)) m" "silent (clearListeners n s) m"
    "silent (notify n ev as s) m"
  using assms by (simp_all add: silent_def clearListeners_def)

lemma silent_destroy: "silent s m \<Longrightarrow> destroy fuel n s = Some s' \<Longrightarrow> silent s' m"
  by (rule destroy_preserves(1) [where I = "\<lambda>t. silent t m"]) (auto intro: silent_steps)

lemma silent_destroy_loop: "silent s m \<Longrightarrow> destroy_loop fuel n cs s = Some s' \<Longrightarrow> silent s' m"
  by (rule destroy_preserves(2) [where I = "\<lambda>t. silent t m"]) (auto intro: silent_steps)

lemma delivered_notify_silent: "silent s n \<Longrightarrow> delivered (notify n ev as s) = delivered s"
  by (simp add: delivered_notify silent_def)

lemma delivered_removeChild_silent:
  "silent s n \<Longrightarrow> delivered (snd (removeChild n obj s)) = delivered s"
  by (cases obj) (auto simp: removeChild_def flag_defs Let_def delivered_notify silent_def)

lemma delivered_removeChild:
  "delivered (snd (removeChild p (Some n) s)) =
     delivered s @
     (if hasChild s p n
      then map (\<lambda>cb. \<lparr>emitter = p, event = ''remove'', callback = cb, args = [Obj p, Obj n]\<rparr>)
             (listeners (nodes s p) ''remove'')
      else [])"
  by (simp add: removeChild_def flag_defs Let_def delivered_notify)

lemma destroy_delivers_nothing_more:
  shows "destroy fuel n s = Some s' \<Longrightarrow> delivered s' = delivered (detach n s)"
    and "silent s n \<Longrightarrow> destroy_loop fuel n cs s = Some s' \<Longrightarrow> delivered s' = delivered s"
proof (induction fuel n s and fuel n cs s arbitrary: s' and s' rule: destroy_destroy_loop.induct)
  case (1 n s)
  then show ?case by simp
next
  case (2 fuel n s)
  let ?s2 = "clearListeners n (detach n s)"
  have q: "silent ?s2 n" by (simp add: silent_def clearListeners_def)
  from "2.prems" obtain s3 where l: "destroy_loop fuel n (children (nodes ?s2 n)) ?s2 = Some s3"
    and s': "s' = notify n ''destroy'' [] s3"
    by (auto simp: Let_def detach_def split: option.splits)
  from "2.IH" [OF _ _ q, of "detach n s" s3] l have "delivered s3 = delivered ?s2"
    by (simp add: detach_def)
  moreover from q l have "silent s3 n" by (rule silent_destroy_loop)
  ultimately show ?case
    by (simp add: s' delivered_notify_silent clearListeners_def)
next
  case (3 fuel n s)
  then show ?case by simp
next
  case (4 fuel n c cs s)
  show ?case
  proof (cases "hasChild s n c")
    case True
    let ?s1 = "snd (removeChild n (Some c) s)"
    from "4.prems"(2) True obtain s2 where d: "destroy fuel c ?s1 = Some s2"
      and l: "destroy_loop fuel n cs s2 = Some s'"
      by (auto split: option.splits)
    from True have "parent (nodes ?s1 c) = None"
      by (simp add: parent_removeChild hasChild_def)
    then have "detach c ?s1 = ?s1" by (simp add: detach_def)
    with "4.IH"(1) [OF True d] have "delivered s2 = delivered ?s1" by simp
    also from "4.prems"(1) have "\<dots> = delivered s" by (rule delivered_removeChild_silent)
    finally have e: "delivered s2 = delivered s" .
    from "4.prems"(1) have "silent ?s1 n" by (rule silent_steps)
    then have "silent s2 n" using d by (rule silent_destroy)
    from "4.IH"(2) [OF True d this l] e show ?thesis by simp
  next
    case False
    with "4.prems" "4.IH"(3) show ?thesis by simp
  qed
qed

subsection \<open>What \<open>destroy\<close> leaves of the hierarchy\<close>

lemma hasChild_removeChild:
  "hasChild (snd (removeChild n obj s)) p c \<longleftrightarrow> hasChild s p c \<and> \<not> (p = n \<and> obj = Some c)"
  by (cases obj) (auto simp: hasChild_def children_removeChild)

lemma hasChild_clearListeners [simp]: "hasChild (clearListeners n s) = hasChild s"
  by (simp add: hasChild_def clearListeners_def fun_eq_iff)

lemma hasChild_notify [simp]: "hasChild (notify n ev as s) = hasChild s"
  by (simp add: hasChild_def fun_eq_iff)

lemma destroy_keeps_absent:
  "\<not> hasChild s p c \<Longrightarrow> destroy fuel n s = Some s' \<Longrightarrow> \<not> hasChild s' p c"
  by (rule destroy_preserves(1) [where I = "\<lambda>t. \<not> hasChild t p c"])
    (simp_all add: hasChild_removeChild)

lemma destroy_loop_keeps_absent:
  "\<not> hasChild s p c \<Longrightarrow> destroy_loop fuel n cs s = Some s' \<Longrightarrow> \<not> hasChild s' p c"
  by (rule destroy_preserves(2) [where I = "\<lambda>t. \<not> hasChild t p c"])
    (simp_all add: hasChild_removeChild)

lemma destroy_shrinks: "destroy fuel n s = Some s' \<Longrightarrow> hasChild s' p c \<Longrightarrow> hasChild s p c"
  using destroy_keeps_absent by blast

lemma destroy_loop_shrinks: "destroy_loop fuel n cs s = Some s' \<Longrightarrow> hasChild s' p c \<Longrightarrow> hasChild s p c"
  using destroy_loop_keeps_absent by blast

lemma parent_None_removeChild:
  "parent (nodes s m) = None \<Longrightarrow> parent (nodes (snd (removeChild n obj s)) m) = None"
  by (cases obj) (simp_all add: parent_removeChild)

lemma ranked_steps:
  assumes "ranked h s"
  shows "ranked h (snd (removeChild n obj s))" "ranked h (clearListeners n s)"
    "ranked h (notify n ev as s)"
  using assms by (simp_all add: ranked_def hasChild_removeChild)

lemma ranked_destroy: "ranked h s \<Longrightarrow> destroy fuel n s = Some s' \<Longrightarrow> ranked h s'"
  by (rule destroy_preserves(1) [where I = "ranked h"]) (auto intro: ranked_steps)

lemma destroyed_steps:
  assumes "destroyed s d"
  shows "destroyed (snd (removeChild n obj s)) d" "destroyed (clearListeners n s) d"
    "destroyed (notify n ev as s) d"
proof -
  show "destroyed (snd (removeChild n obj s)) d"
    using assms by (cases obj) (auto simp: destroyed_def children_removeChild parent_removeChild)
  show "destroyed (clearListeners n s) d" "destroyed (notify n ev as s) d"
    using assms by (auto simp: destroyed_def clearListeners_def)
qed

lemma destroyed_destroy_loop:
  "destroyed s d \<Longrightarrow> destroy_loop fuel n cs s = Some s' \<Longrightarrow> destroyed s' d"
  by (rule destroy_preserves(2) [where I = "\<lambda>t. destroyed t d"]) (auto intro: destroyed_steps)

lemma destroy_loop_removes:
  "destroy_loop fuel n cs s = Some s' \<Longrightarrow> c \<in> set cs \<Longrightarrow> \<not> hasChild s' n c"
proof (induction cs arbitrary: s)
  case Nil
  then show ?case by simp
next
  case (Cons a cs)
  show ?case
  proof (cases "hasChild s n a")
    case True
    let ?s1 = "snd (removeChild n (Some a) s)"
    from Cons.prems(1) True obtain s2 where d: "destroy fuel a ?s1 = Some s2"
      and l: "destroy_loop fuel n cs s2 = Some s'"
      by (auto split: option.splits)
    show ?thesis
    proof (cases "c = a")
      case True
      have "\<not> hasChild ?s1 n a" by (simp add: hasChild_removeChild)
      with d have "\<not> hasChild s2 n a" by (blast dest: destroy_shrinks)
      with l True show ?thesis by (blast dest: destroy_loop_shrinks)
    next
      case False
      with Cons.prems(2) have "c \<in> set cs" by simp
      with Cons.IH [OF l] show ?thesis .
    qed
  next
    case False
    then have l: "destroy_loop fuel n cs s = Some s'" using Cons.prems(1) by simp
    show ?thesis
    proof (cases "c = a")
      case True
      with False l show ?thesis by (blast dest: destroy_loop_shrinks)
    next
      case False
      with Cons.prems(2) have "c \<in> set cs" by simp
      with Cons.IH [OF l] show ?thesis .
    qed
  qed
qed

lemma destroy_destroys_self:
  assumes st: "struct_ok s" and d: "destroy fuel n s = Some s'"
  shows "destroyed s' n"
proof -
  from d obtain k where k: "fuel = Suc k" by (cases fuel) auto
  let ?s2 = "clearListeners n (detach n s)"
  from d k obtain s3 where l: "destroy_loop k n (children (nodes ?s2 n)) ?s2 = Some s3"
    and s': "s' = notify n ''destroy'' [] s3"
    by (auto simp: Let_def detach_def split: option.splits)
  have p: "parent (nodes ?s2 n) = None"
    using st by (auto simp: detach_def clearListeners_def parent_removeChild struct_ok_def hasChild_def
        split: option.splits)
  have q: "\<forall>ev. listeners (nodes ?s2 n) ev = []" by (simp add: clearListeners_def)
  let ?I = "\<lambda>t::('a, 'b, 'c) scene. parent (nodes t n) = None \<and> (\<forall>ev. listeners (nodes t n) ev = [])"
  have "?I s3"
  proof (rule destroy_preserves(2) [where I = ?I, OF _ _ _ _ l])
    show "?I ?s2" using p q by simp
  qed (auto simp: clearListeners_def parent_None_removeChild)
  moreover have "children (nodes s3 n) = []"
  proof (rule ccontr)
    assume "children (nodes s3 n) \<noteq> []"
    then obtain c where c: "hasChild s3 n c" by (cases "children (nodes s3 n)") (auto simp: hasChild_def)
    with l have "hasChild ?s2 n c" by (rule destroy_loop_shrinks)
    then have "c \<in> set (children (nodes ?s2 n))" by (simp only: hasChild_def)
    with l have "\<not> hasChild s3 n c" by (rule destroy_loop_removes)
    with c show False by simp
  qed
  ultimately show ?thesis by (simp add: s' destroyed_def)
qed

lemma struct_ok_destroy: "struct_ok s \<Longrightarrow> destroy fuel n s = Some s' \<Longrightarrow> struct_ok s'"
  by (rule destroy_preserves(1) [where I = struct_ok])
    (simp_all add: struct_ok_removeChild struct_ok_listen)

lemma struct_ok_detach: "struct_ok s \<Longrightarrow> struct_ok (detach n s)"
  by (simp add: detach_def struct_ok_removeChild split: option.splits)

lemma hasChild_detach:
  "hasChild (detach n s) p c \<longleftrightarrow> hasChild s p c \<and> \<not> (parent (nodes s n) = Some p \<and> c = n)"
  by (auto simp: detach_def hasChild_removeChild split: option.splits)

lemma destroy_removed_edges:
  shows "struct_ok s \<Longrightarrow> destroy fuel n s = Some s' \<Longrightarrow> hasChild s p c \<Longrightarrow>
      hasChild s' p c \<or> destroyed s' c"
    and "struct_ok s \<Longrightarrow> destroy_loop fuel n cs s = Some s' \<Longrightarrow> hasChild s p c \<Longrightarrow>
      hasChild s' p c \<or> destroyed s' c"
proof (induction fuel n s and fuel n cs s arbitrary: s' and s' rule: destroy_destroy_loop.induct)
  case (1 n s)
  then show ?case by simp
next
  case (2 fuel n s)
  let ?s2 = "clearListeners n (detach n s)"
  from "2.prems"(2) obtain s3 where l: "destroy_loop fuel n (children (nodes ?s2 n)) ?s2 = Some s3"
    and s': "s' = notify n ''destroy'' [] s3"
    by (auto simp: Let_def detach_def split: option.splits)
  from "2.prems"(1) have st2: "struct_ok ?s2"
    by (simp add: struct_ok_detach struct_ok_listen)
  show ?case
  proof (cases "hasChild ?s2 p c")
    case True
    from "2.IH" [OF _ _ st2, of "detach n s" s3] l True
    have "hasChild s3 p c \<or> destroyed s3 c" by (simp add: detach_def)
    then show ?thesis by (auto simp: s' intro: destroyed_steps)
  next
    case False
    with "2.prems"(3) have "c = n" by (simp add: hasChild_detach)
    with destroy_destroys_self [OF "2.prems"(1) "2.prems"(2)] show ?thesis by simp
  qed
next
  case (3 fuel n s)
  then show ?case by simp
next
  case (4 fuel n a cs s)
  show ?case
  proof (cases "hasChild s n a")
    case True
    let ?s1 = "snd (removeChild n (Some a) s)"
    from "4.prems"(2) True obtain s2 where d: "destroy fuel a ?s1 = Some s2"
      and l: "destroy_loop fuel n cs s2 = Some s'"
      by (auto split: option.splits)
    from "4.prems"(1) have st1: "struct_ok ?s1" by (rule struct_ok_removeChild)
    then have st2: "struct_ok s2" using d by (rule struct_ok_destroy)
    have "hasChild s2 p c \<or> destroyed s2 c"
    proof (cases "hasChild ?s1 p c")
      case True
      with "4.IH"(1) [OF \<open>hasChild s n a\<close> st1 d] show ?thesis .
    next
      case False
      with "4.prems"(3) have "c = a" by (simp add: hasChild_removeChild)
      with destroy_destroys_self [OF st1 d] show ?thesis by simp
    qed
    then show ?thesis
    proof
      assume "hasChild s2 p c"
      with "4.IH"(2) [OF True d st2 l] show ?thesis .
    next
      assume "destroyed s2 c"
      then have "destroyed s' c" using l by (rule destroyed_destroy_loop)
      then show ?thesis ..
    qed
  next
    case False
    with "4.prems" "4.IH"(3) show ?thesis by simp
  qed
qed

lemma destroy_returns:
  shows "ranked h s \<Longrightarrow> h n < fuel \<Longrightarrow> destroy fuel n s \<noteq> None"
    and "ranked h s \<Longrightarrow> \<forall>c\<in>set cs. h c < fuel \<Longrightarrow> destroy_loop fuel n cs s \<noteq> None"
proof (induction fuel n s and fuel n cs s rule: destroy_destroy_loop.induct)
  case (1 n s)
  then show ?case by simp
next
  case (2 fuel n s)
  let ?s2 = "clearListeners n (detach n s)"
  from "2.prems"(1) have r2: "ranked h ?s2"
    by (simp add: detach_def ranked_steps split: option.splits)
  have "\<forall>c\<in>set (children (nodes ?s2 n)). h c < fuel"
  proof
    fix c assume "c \<in> set (children (nodes ?s2 n))"
    then have "hasChild ?s2 n c" by (simp only: hasChild_def)
    then have "hasChild s n c" by (simp add: hasChild_detach)
    with "2.prems"(1) have "h c < h n" by (simp add: ranked_def)
    with "2.prems"(2) show "h c < fuel" by simp
  qed
  with "2.IH" [OF _ _ r2, of "detach n s"] show ?case
    by (auto simp: Let_def detach_def split: option.splits)
next
  case (3 fuel n s)
  then show ?case by simp
next
  case (4 fuel n a cs s)
  show ?case
  proof (cases "hasChild s n a")
    case True
    let ?s1 = "snd (removeChild n (Some a) s)"
    from "4.prems"(1) have r1: "ranked h ?s1" by (rule ranked_steps)
    from "4.prems"(2) have ha: "h a < fuel" by simp
    from "4.IH"(1) [OF True r1 ha] obtain s2 where d: "destroy fuel a ?s1 = Some s2" by blast
    from r1 d have "ranked h s2" by (rule ranked_destroy)
    from "4.IH"(2) [OF True d this] "4.prems"(2) have "destroy_loop fuel n cs s2 \<noteq> None" by simp
    with True d show ?thesis by simp
  next
    case False
    with "4.prems" "4.IH"(3) show ?thesis by simp
  qed
qed

lemma descends_refl [simp]: "descends s n n"
  by (simp add: descends_def)

lemma descends_step: "hasChild s n c \<Longrightarrow> descends s c d \<Longrightarrow> descends s n d"
  unfolding descends_def by (rule converse_rtranclp_into_rtranclp)

lemma descends_cases:
  "descends s n d \<Longrightarrow> d = n \<or> (\<exists>c. hasChild s n c \<and> descends s c d)"
  unfolding descends_def by (erule converse_rtranclpE) auto

lemma destroy_subtree:
  assumes st: "struct_ok s" and d: "destroy fuel n s = Some s'" and t: "descends s n x"
  shows "destroyed s' x"
  using t unfolding descends_def
proof (induction rule: rtranclp_induct)
  case base
  from st d show ?case by (rule destroy_destroys_self)
next
  case (step y z)
  from destroy_removed_edges(1) [OF st d step.hyps(2)] show ?case
  proof
    assume "hasChild s' y z"
    with step.IH show ?thesis by (simp add: destroyed_def hasChild_def)
  qed
qed

subsection \<open>The update pass\<close>

lemma settled_valid: "settled s n \<Longrightarrow> is_model_valid (nodes s n)"
  by (erule settled.cases) simp_all

lemma hasChild_revalidateModel [simp]: "hasChild (revalidateModel ml n s) = hasChild s"
  by (auto simp: hasChild_def fun_eq_iff nodes_revalidateModel revalidated_def Let_def)

lemma parent_revalidateModel [simp]:
  "parent (nodes (revalidateModel ml n s) m) = parent (nodes s m)"
  by (simp add: nodes_revalidateModel revalidated_def Let_def)

lemma revalidateModel_keeps_settled:
  assumes st: "struct_ok s" and inv: "\<not> is_model_valid (nodes s k)" and se: "settled s m"
  shows "settled (revalidateModel ml k s) m"
  using se
proof (induction rule: settled.induct)
  case (root n)
  from root inv have "n \<noteq> k" by auto
  moreover from root st have "n \<notin> set (children (nodes s k))"
    by (simp add: struct_ok_def hasChild_def)
  ultimately have "nodes (revalidateModel ml k s) n = nodes s n"
    by (simp add: nodes_revalidateModel)
  with root show ?case by (simp add: settled.root)
next
  case (child n p)
  from child inv have "n \<noteq> k" by auto
  moreover from child.hyps(3) inv have "p \<noteq> k" by (auto dest: settled_valid)
  with child st have "n \<notin> set (children (nodes s k))"
    by (simp add: struct_ok_def hasChild_def)
  ultimately have "nodes (revalidateModel ml k s) n = nodes s n"
    by (simp add: nodes_revalidateModel)
  with child show ?case by (simp add: settled.child)
qed

lemma update_keeps_settled:
  fixes s :: "('v, 'q, 'm) scene"
  assumes "struct_ok s" "settled s m"
  shows "update ml fuel n s = Some s' \<Longrightarrow> settled s' m"
    and "update_loop ml fuel n cs s = Some s' \<Longrightarrow> settled s' m"
proof -
  let ?I = "\<lambda>t :: ('v, 'q, 'm) scene. struct_ok t \<and> settled t m"
  have step: "?I (revalidateModel ml k t)" if "?I t" "\<not> is_model_valid (nodes t k)" for k t
    using that by (simp add: struct_ok_revalidateModel revalidateModel_keeps_settled)
  from assms have i: "?I s" by simp
  {
    assume u: "update ml fuel n s = Some s'"
    have "?I s'"
      by (rule update_preserves_invalid(1) [where I = ?I, OF i u]) (rule step)
    then show "settled s' m" ..
  }
  {
    assume u: "update_loop ml fuel n cs s = Some s'"
    have "?I s'"
      by (rule update_preserves_invalid(2) [where I = ?I, OF i u]) (rule step)
    then show "settled s' m" ..
  }
qed

lemma update_keeps_shape:
  fixes s :: "('v, 'q, 'm) scene"
  shows "update ml fuel n s = Some s' \<Longrightarrow>
      hasChild s' = hasChild s \<and> (\<forall>m. parent (nodes s' m) = parent (nodes s m))"
    and "update_loop ml fuel n cs s = Some s' \<Longrightarrow>
      hasChild s' = hasChild s \<and> (\<forall>m. parent (nodes s' m) = parent (nodes s m))"
proof -
  let ?I = "\<lambda>t :: ('v, 'q, 'm) scene. hasChild t = hasChild s \<and> (\<forall>m. parent (nodes t m) = parent (nodes s m))"
  have step: "?I (revalidateModel ml k t)" if "?I t" for k t
    using that by simp
  have i: "?I s" by simp
  {
    assume u: "update ml fuel n s = Some s'"
    show "?I s'"
      by (rule update_preserves_invalid(1) [where I = ?I, OF i u]) (rule step)
  }
  {
    assume u: "update_loop ml fuel n cs s = Some s'"
    show "?I s'"
      by (rule update_preserves_invalid(2) [where I = ?I, OF i u]) (rule step)
  }
qed

lemma same_shape:
  assumes "hasChild s' = hasChild s \<and> (\<forall>m. parent (nodes s' m) = parent (nodes s m))"
  shows "struct_ok s' = struct_ok s" "ranked h s' = ranked h s" "descends s' = descends s"
proof -
  show "struct_ok s' = struct_ok s" "ranked h s' = ranked h s"
    using assms by (simp_all add: struct_ok_def ranked_def)
  show "descends s' = descends s"
    using assms by (intro ext) (simp add: descends_def)
qed

lemma update_settles:
  shows "struct_ok s \<Longrightarrow> ranked h s \<Longrightarrow> h n < fuel \<Longrightarrow>
      parent (nodes s n) = None \<or> (\<exists>p. parent (nodes s n) = Some p \<and> settled s p) \<Longrightarrow>
      \<exists>s'. update ml fuel n s = Some s' \<and> (\<forall>d. descends s n d \<longrightarrow> settled s' d)"
    and "struct_ok s \<Longrightarrow> ranked h s \<Longrightarrow> \<forall>c\<in>set cs. h c < fuel \<and> hasChild s n c \<Longrightarrow>
      settled s n \<Longrightarrow>
      \<exists>s'. update_loop ml fuel n cs s = Some s' \<and> (\<forall>c\<in>set cs. \<forall>d. descends s c d \<longrightarrow> settled s' d)"
proof (induction ml fuel n s and ml fuel n cs s rule: update_update_loop.induct)
  case (1 ml n s)
  then show ?case by simp
next
  case (2 ml fuel n s)
  let ?s1 = "if \<not> is_model_valid (nodes s n) then revalidateModel ml n s else s"
  have sh: "hasChild ?s1 = hasChild s" and pa: "\<And>m. parent (nodes ?s1 m) = parent (nodes s m)"
    by simp_all
  from "2.prems"(1) have st1: "struct_ok ?s1" by (simp add: struct_ok_revalidateModel)
  from "2.prems"(2) have rk1: "ranked h ?s1" by (simp add: ranked_def)
  have de: "descends ?s1 = descends s"
    by (rule same_shape(3)) (simp add: sh)
  from "2.prems"(2) have nself: "n \<notin> set (children (nodes s n))"
    by (auto simp: ranked_def hasChild_def)
  have v1: "is_model_valid (nodes ?s1 n)"
    using nself by (simp add: nodes_revalidateModel revalidated_def Let_def)
  have se1: "settled ?s1 n"
  proof (cases "parent (nodes s n)")
    case None
    with v1 pa show ?thesis by (simp add: settled.root)
  next
    case (Some p)
    with "2.prems"(4) have "settled s p" by simp
    then have "settled ?s1 p"
      using "2.prems"(1) by (simp add: revalidateModel_keeps_settled)
    with v1 Some pa [of n] show ?thesis by (auto intro: settled.child)
  qed
  have cs: "\<forall>c\<in>set (children (nodes ?s1 n)). h c < fuel \<and> hasChild ?s1 n c"
  proof
    fix c assume "c \<in> set (children (nodes ?s1 n))"
    then have c1: "hasChild ?s1 n c" by (simp only: hasChild_def)
    with sh have "hasChild s n c" by simp
    with "2.prems"(2) have "h c < h n" by (simp add: ranked_def)
    with "2.prems"(3) c1 show "h c < fuel \<and> hasChild ?s1 n c" by simp
  qed
  from "2.IH" [OF refl st1 rk1 cs se1] obtain s'
    where l: "update_loop ml fuel n (children (nodes ?s1 n)) ?s1 = Some s'"
      and al: "\<forall>c\<in>set (children (nodes ?s1 n)). \<forall>d. descends ?s1 c d \<longrightarrow> settled s' d"
    by blast
  from l have u: "update ml (Suc fuel) n s = Some s'" by (simp add: Let_def)
  have "settled s' d" if "descends s n d" for d
  proof -
    from descends_cases [OF that] show ?thesis
    proof
      assume "d = n"
      with update_keeps_settled(2) [OF st1 se1 l] show ?thesis by simp
    next
      assume "\<exists>c. hasChild s n c \<and> descends s c d"
      then obtain c where c: "hasChild s n c" "descends s c d" by blast
      from c(1) sh have "hasChild ?s1 n c" by simp
      then have "c \<in> set (children (nodes ?s1 n))"
        by (simp only: hasChild_def)
      with al c(2) de show ?thesis by simp
    qed
  qed
  with u show ?case by blast
next
  case (3 ml fuel n s)
  then show ?case by simp
next
  case (4 ml fuel n a cs s)
  from "4.prems"(3) have ha: "h a < fuel" and ca: "hasChild s n a" by simp_all
  from ca "4.prems"(1) have pa: "parent (nodes s a) = Some n" by (simp add: struct_ok_def)
  with "4.prems"(4) have "parent (nodes s a) = None \<or> (\<exists>p. parent (nodes s a) = Some p \<and> settled s p)"
    by simp
  from "4.IH"(1) [OF ca "4.prems"(1) "4.prems"(2) ha this] obtain s2
    where u: "update ml fuel a s = Some s2" and al: "\<forall>d. descends s a d \<longrightarrow> settled s2 d"
    by blast
  note sh = update_keeps_shape(1) [OF u]
  from "4.prems"(1) have st2: "struct_ok s2" by (simp add: same_shape(1) [OF sh])
  from "4.prems"(2) have rk2: "ranked h s2" by (simp add: same_shape(2) [OF sh])
  have de: "descends s2 = descends s" by (rule same_shape(3) [OF sh])
  from "4.prems"(3) sh have cs: "\<forall>c\<in>set cs. h c < fuel \<and> hasChild s2 n c" by simp
  from update_keeps_settled(1) [OF "4.prems"(1) "4.prems"(4) u] have se2: "settled s2 n" .
  from "4.IH"(2) [OF ca u st2 rk2 cs se2] obtain s'
    where l: "update_loop ml fuel n cs s2 = Some s'"
      and al': "\<forall>c\<in>set cs. \<forall>d. descends s2 c d \<longrightarrow> settled s' d"
    by blast
  from ca u l have r: "update_loop ml fuel n (a # cs) s = Some s'" by simp
  have "settled s' d" if "c \<in> set (a # cs)" "descends s c d" for c d
  proof (cases "c = a")
    case True
    with al that(2) have "settled s2 d" by simp
    from update_keeps_settled(2) [OF st2 this l] show ?thesis .
  next
    case False
    with that(1) have "c \<in> set cs" by simp
    with al' that(2) de show ?thesis by simp
  qed
  with r show ?case by blast
qed

lemma update_returns:
  shows "ranked h s \<Longrightarrow> h n < fuel \<Longrightarrow> update ml fuel n s \<noteq> None"
    and "ranked h s \<Longrightarrow> \<forall>c\<in>set cs. h c < fuel \<Longrightarrow> update_loop ml fuel n cs s \<noteq> None"
proof (induction ml fuel n s and ml fuel n cs s rule: update_update_loop.induct)
  case (1 ml n s)
  then show ?case by simp
next
  case (2 ml fuel n s)
  let ?s1 = "if \<not> is_model_valid (nodes s n) then revalidateModel ml n s else s"
  have sh: "hasChild ?s1 = hasChild s" by simp
  from "2.prems"(1) have rk1: "ranked h ?s1" by (simp add: ranked_def)
  have "\<forall>c\<in>set (children (nodes ?s1 n)). h c < fuel"
  proof
    fix c assume "c \<in> set (children (nodes ?s1 n))"
    then have "hasChild ?s1 n c" by (simp only: hasChild_def)
    with sh have "hasChild s n c" by simp
    with "2.prems"(1) have "h c < h n" by (simp add: ranked_def)
    with "2.prems"(2) show "h c < fuel" by simp
  qed
  from "2.IH" [OF refl rk1 this] show ?case by (simp add: Let_def)
next
  case (3 ml fuel n s)
  then show ?case by simp
next
  case (4 ml fuel n a cs s)
  show ?case
  proof (cases "hasChild s n a")
    case True
    from "4.prems"(2) have ha: "h a < fuel" by simp
    from "4.IH"(1) [OF True "4.prems"(1) ha] obtain s2 where u: "update ml fuel a s = Some s2" by blast
    from "4.prems"(1) have "ranked h s2" by (simp add: same_shape(2) [OF update_keeps_shape(1) [OF u]])
    from "4.IH"(2) [OF True u this] "4.prems"(2) have "update_loop ml fuel n cs s2 \<noteq> None" by simp
    with True u show ?thesis by simp
  next
    case False
    with "4.prems" "4.IH"(3) show ?thesis by simp
  qed
qed

lemma settled_world:
  "world_ok ml s \<Longrightarrow> settled s d \<Longrightarrow> world_model (nodes s d) = composed_world ml s d"
  by (erule settled.cases) (auto simp: world_ok_def composed_world_def dest: settled_valid)

lemma hierarchy_ok_update:
  "hierarchy_ok ml s \<Longrightarrow> update ml fuel n s = Some s' \<Longrightarrow> hierarchy_ok ml s'"
  by (rule update_preserves [where I = "hierarchy_ok ml"]) (auto intro: hierarchy_ok_steps)

lemma flags_ok_update: "flags_ok s \<Longrightarrow> update ml fuel n s = Some s' \<Longrightarrow> flags_ok s'"
  by (rule update_preserves [where I = flags_ok]) (auto intro: flags_ok_revalidateModel)

lemma local_ok_update: "local_ok ml s \<Longrightarrow> update ml fuel n s = Some s' \<Longrightarrow> local_ok ml s'"
  by (rule update_preserves [where I = "local_ok ml"]) (auto intro: local_ok_revalidateModel)

lemma update_pass:
  assumes ok: "hierarchy_ok ml s" and rk: "ranked h s"
    and top: "parent (nodes s r) = None" and f: "h r < fuel"
  shows "\<exists>s'. update ml fuel r s = Some s' \<and> hierarchy_ok ml s' \<and> descends s' = descends s \<and>
     (\<forall>d. descends s r d \<longrightarrow> settled s' d \<and> world_model (nodes s' d) = composed_world ml s' d)"
proof -
  from ok have st: "struct_ok s" by (simp add: hierarchy_ok_def)
  from top have "parent (nodes s r) = None \<or> (\<exists>p. parent (nodes s r) = Some p \<and> settled s p)" ..
  from update_settles(1) [OF st rk f this] obtain s'
    where u: "update ml fuel r s = Some s'" and al: "\<forall>d. descends s r d \<longrightarrow> settled s' d"
    by blast
  from ok u have ok': "hierarchy_ok ml s'" by (rule hierarchy_ok_update)
  then have "world_ok ml s'" by (simp add: hierarchy_ok_def)
  with al have "\<forall>d. descends s r d \<longrightarrow> settled s' d \<and> world_model (nodes s' d) = composed_world ml s' d"
    by (simp add: settled_world)
  moreover have "descends s' = descends s"
    by (rule same_shape(3) [OF update_keeps_shape(1) [OF u]])
  ultimately show ?thesis using u ok' by blast
qed

lemma transforms_effect:
  assumes "transforms c a" and "exec ml k c s = Some sm"
  shows "\<not> is_model_valid (nodes sm a)" "\<not> is_local_model_valid (nodes sm a)"
    "d \<noteq> a \<Longrightarrow> nodes sm d = nodes s d"
    "parent (nodes sm d) = parent (nodes s d)"
    "children (nodes sm d) = children (nodes s d)"
    "\<not> sets_parent c"
proof -
  show "\<not> is_model_valid (nodes sm a)"
    using assms by (cases c) (auto simp: mutator_defs flag_defs Let_def)
  show "\<not> is_local_model_valid (nodes sm a)"
    using assms by (cases c) (auto simp: mutator_defs flag_defs Let_def)
  show "nodes sm d = nodes s d" if "d \<noteq> a"
    using assms that by (cases c) (auto simp: mutator_defs flag_defs Let_def)
  show "parent (nodes sm d) = parent (nodes s d)"
    using assms by (cases c) (auto simp: mutator_defs flag_defs Let_def)
  show "children (nodes sm d) = children (nodes s d)"
    using assms by (cases c) (auto simp: mutator_defs flag_defs Let_def)
  show "\<not> sets_parent c"
    using assms by (cases c) auto
qed

lemma update_keeps_local_valid:
  fixes s :: "('v, 'q, 'm) scene"
  assumes "is_local_model_valid (nodes s d)"
  shows "update ml fuel n s = Some s' \<Longrightarrow> is_local_model_valid (nodes s' d)"
    and "update_loop ml fuel n cs s = Some s' \<Longrightarrow> is_local_model_valid (nodes s' d)"
proof -
  let ?I = "\<lambda>t :: ('v, 'q, 'm) scene. is_local_model_valid (nodes t d)"
  have step: "?I (revalidateModel ml k t)" if "?I t" for k t
    using that by (simp add: nodes_revalidateModel revalidated_def Let_def)
  {
    assume u: "update ml fuel n s = Some s'"
    show "?I s'"
      by (rule update_preserves_invalid(1) [where I = ?I, OF assms u]) (rule step)
  }
  {
    assume u: "update_loop ml fuel n cs s = Some s'"
    show "?I s'"
      by (rule update_preserves_invalid(2) [where I = ?I, OF assms u]) (rule step)
  }
qed

lemma update_validates_local:
  shows "flags_ok s \<Longrightarrow> update ml fuel n s = Some s' \<Longrightarrow> descends s n d \<Longrightarrow>
      is_local_model_valid (nodes s' d)"
    and "flags_ok s \<Longrightarrow> update_loop ml fuel n cs s = Some s' \<Longrightarrow> c \<in> set cs \<Longrightarrow>
      hasChild s n c \<Longrightarrow> descends s c d \<Longrightarrow> is_local_model_valid (nodes s' d)"
proof (induction ml fuel n s and ml fuel n cs s arbitrary: s' d and s' c d rule: update_update_loop.induct)
  case (1 ml n s)
  then show ?case by simp
next
  case (2 ml fuel n s)
  let ?s1 = "if \<not> is_model_valid (nodes s n) then revalidateModel ml n s else s"
  have sh: "hasChild ?s1 = hasChild s" by simp
  have de: "descends ?s1 = descends s"
    by (rule same_shape(3)) (simp add: sh)
  from "2.prems"(1) have f1: "flags_ok ?s1" by (simp add: flags_ok_revalidateModel)
  from "2.prems"(1) have v1: "is_local_model_valid (nodes ?s1 n)"
    by (simp add: nodes_revalidateModel revalidated_def Let_def flags_ok_def)
  from "2.prems"(2) have l: "update_loop ml fuel n (children (nodes ?s1 n)) ?s1 = Some s'"
    by (simp add: Let_def)
  from descends_cases [OF "2.prems"(3)] show ?case
  proof
    assume "d = n"
    with update_keeps_local_valid(2) [OF v1 l] show ?thesis by simp
  next
    assume "\<exists>c. hasChild s n c \<and> descends s c d"
    then obtain c where c: "hasChild s n c" "descends s c d" by blast
    from c(1) sh have h1: "hasChild ?s1 n c" by simp
    then have m: "c \<in> set (children (nodes ?s1 n))" by (simp only: hasChild_def)
    from c(2) de have "descends ?s1 c d" by simp
    from "2.IH" [OF refl f1 l m h1 this] show ?thesis .
  qed
next
  case (3 ml fuel n s)
  then show ?case by simp
next
  case (4 ml fuel n a cs s)
  show ?case
  proof (cases "hasChild s n a")
    case True
    from "4.prems"(2) True obtain s2 where u: "update ml fuel a s = Some s2"
      and l: "update_loop ml fuel n cs s2 = Some s'"
      by (auto split: option.splits)
    note sh = update_keeps_shape(1) [OF u]
    from "4.prems"(1) u have f2: "flags_ok s2" by (rule flags_ok_update)
    show ?thesis
    proof (cases "c = a")
      case True
      with "4.IH"(1) [OF \<open>hasChild s n a\<close> "4.prems"(1) u] "4.prems"(5)
      have "is_local_model_valid (nodes s2 d)" by simp
      from update_keeps_local_valid(2) [OF this l] show ?thesis .
    next
      case False
      with "4.prems"(3) have m: "c \<in> set cs" by simp
      from "4.prems"(4) sh have h2: "hasChild s2 n c" by simp
      from "4.prems"(5) have "descends s2 c d" by (simp add: same_shape(3) [OF sh])
      from "4.IH"(2) [OF True u f2 l m h2 this] show ?thesis .
    qed
  next
    case False
    with "4.prems"(4) have "c \<noteq> a" by auto
    with "4.prems"(3) have m: "c \<in> set cs" by simp
    from False "4.prems"(2) have l: "update_loop ml fuel n cs s = Some s'" by simp
    from "4.IH"(3) [OF False "4.prems"(1) l m "4.prems"(4) "4.prems"(5)] show ?thesis .
  qed
qed

subsection \<open>Concrete scenes\<close>

lemma ranked_demo: "ranked (\<lambda>n. 3 - n) (the (run symbolic 4 demo blank))"
  by (auto simp: ranked_def demo_def eval_defs eval_nat_numeral split: if_splits)

lemma run_warm: "run symbolic 4 warm blank \<noteq> None"
  by code_simp

lemma ranked_warm: "ranked (\<lambda>n. 3 - n) (the (run symbolic 4 warm blank))"
  by (auto simp: ranked_def warm_def eval_defs eval_nat_numeral split: if_splits)

lemma run_clan: "run symbolic 4 clan blank \<noteq> None"
  by code_simp

lemma ranked_clan: "ranked (\<lambda>n. 4 - n) (the (run symbolic 4 clan blank))"
  by (auto simp: ranked_def clan_def eval_defs eval_nat_numeral split: if_splits)

lemma ranked_audience: "ranked (\<lambda>n. 4 - n) (the (run symbolic 4 audience blank))"
  by (auto simp: ranked_def audience_def eval_defs eval_nat_numeral split: if_splits)

section \<open>Claims\<close>

text \<open>
  The theorems below are about scenes reached from freshly constructed objects
  (\<open>constructed\<close>) by a sequence of calls (\<open>run\<close>).  Where the hierarchy matters, the
  sequence contains no direct assignment to \<open>parent\<close>, which would break the pairing of
  parents and child sets that \<open>addChild\<close> and \<open>removeChild\<close> maintain.
\<close>

text \<open>
  C1.  In a hierarchy without cycles, \<open>update\<close> on an object without parent returns, and
  afterwards, for every object of the hierarchy below it, the world model is the
  parent's world model times the object's local model when the object has a parent, and
  is the local model when it has none.
\<close>

theorem update_pass_composes_world:
  assumes c: "constructed ml s0" and l: "list_all (\<lambda>c. \<not> sets_parent c) calls"
    and r: "run ml k calls s0 = Some s"
    and rk: "ranked h s" and top: "parent (nodes s r) = None" and f: "h r < fuel"
  shows "\<exists>s'. update ml fuel r s = Some s' \<and>
     (\<forall>d. descends s' r d \<longrightarrow>
        world_model (nodes s' d) =
          (case parent (nodes s' d) of
             None \<Rightarrow> local_model (nodes s' d)
           | Some p \<Rightarrow> mat_multiply ml (world_model (nodes s' p)) (local_model (nodes s' d))))"
proof -
  from c l r have "hierarchy_ok ml s" by (blast intro: run_hierarchy_ok constructed_ok)
  from update_pass [OF this rk top f] show ?thesis
    by (auto simp: composed_world_def)
qed

theorem update_pass_composes_world_witness:
  "constructed symbolic blank \<and> list_all (\<lambda>c. \<not> sets_parent c) demo \<and>
   run symbolic 4 demo blank \<noteq> None \<and>
   ranked (\<lambda>n. 3 - n) (the (run symbolic 4 demo blank)) \<and>
   parent (nodes (the (run symbolic 4 demo blank)) 0) = None \<and>
   update symbolic 4 0 (the (run symbolic 4 demo blank)) \<noteq> None \<and>
   world_model (nodes (the (run symbolic 4 demo blank)) 2) =
     [Tmat 0, Rmat 0, Smat 1, Tmat 0, Rmat 0, Smat 1, Tmat 0, Rmat 0, Smat 1] \<and>
   descends (the (update symbolic 4 0 (the (run symbolic 4 demo blank)))) 0 2 \<and>
   parent (nodes (the (update symbolic 4 0 (the (run symbolic 4 demo blank)))) 2) = Some 1 \<and>
   world_model (nodes (the (update symbolic 4 0 (the (run symbolic 4 demo blank)))) 1) =
     [Tmat 0, Rmat 0, Smat 1, Tmat 7, Rmat 12, Smat 3] \<and>
   local_model (nodes (the (update symbolic 4 0 (the (run symbolic 4 demo blank)))) 2) =
     [Tmat 0, Rmat 0, Smat 1] \<and>
   world_model (nodes (the (update symbolic 4 0 (the (run symbolic 4 demo blank)))) 2) =
     [Tmat 0, Rmat 0, Smat 1, Tmat 7, Rmat 12, Smat 3, Tmat 0, Rmat 0, Smat 1]"
proof -
  let ?s = "the (run symbolic 4 demo blank)"
  let ?s' = "the (update symbolic 4 0 ?s)"
  have l: "list_all (\<lambda>c. \<not> sets_parent c) demo" by (simp add: demo_def)
  from run_demo have r: "run symbolic 4 demo blank = Some ?s" by simp
  have top: "parent (nodes ?s 0) = None"
    and old: "world_model (nodes ?s 2) =
      [Tmat 0, Rmat 0, Smat 1, Tmat 0, Rmat 0, Smat 1, Tmat 0, Rmat 0, Smat 1]"
    by code_simp+
  have f: "3 - 0 < (4::nat)" by simp
  from update_pass_composes_world [OF constructed_blank l r ranked_demo top f]
  obtain s' where u: "update symbolic 4 0 ?s = Some s'"
    and w: "\<forall>d. descends s' 0 d \<longrightarrow>
        world_model (nodes s' d) =
          (case parent (nodes s' d) of
             None \<Rightarrow> local_model (nodes s' d)
           | Some p \<Rightarrow> mat_multiply symbolic (world_model (nodes s' p)) (local_model (nodes s' d)))"
    by blast
  from u have s': "s' = ?s'" and un: "update symbolic 4 0 ?s \<noteq> None" by simp_all
  note w = w [unfolded s']
  have e: "hasChild ?s' 0 1 \<and> hasChild ?s' 1 2 \<and> parent (nodes ?s' 2) = Some 1 \<and>
      world_model (nodes ?s' 1) = [Tmat 0, Rmat 0, Smat 1, Tmat 7, Rmat 12, Smat 3] \<and>
      local_model (nodes ?s' 2) = [Tmat 0, Rmat 0, Smat 1]"
    by code_simp
  then have d: "descends ?s' 0 2" by (blast intro: descends_step descends_refl)
  with w have "world_model (nodes ?s' 2) =
      (case parent (nodes ?s' 2) of
         None \<Rightarrow> local_model (nodes ?s' 2)
       | Some p \<Rightarrow> mat_multiply symbolic (world_model (nodes ?s' p)) (local_model (nodes ?s' 2)))"
    by blast
  with e have "world_model (nodes ?s' 2) =
      [Tmat 0, Rmat 0, Smat 1, Tmat 7, Rmat 12, Smat 3, Tmat 0, Rmat 0, Smat 1]"
    by (simp add: symbolic_def)
  with constructed_blank l run_demo ranked_demo top un old d e show ?thesis
    by blast
qed

text \<open>
  C2.  After a property mutator has been applied to an object \<open>a\<close> of the hierarchy, the
  other objects are as they were, so the descendants of \<open>a\<close> still hold the world models
  they had cached.  Revalidating \<open>a\<close> flags the world model of each of its children
  invalid, and the next \<open>update\<close> on the root returns with the local model of \<open>a\<close>
  composed from its new transform and, for every descendant of \<open>a\<close> (and \<open>a\<close> itself), a
  world model that is flagged valid and is the parent's new world model times the
  descendant's local model.
\<close>

theorem mutated_ancestor_reaches_descendants:
  assumes c: "constructed ml s0" and l: "list_all (\<lambda>c. \<not> sets_parent c) calls"
    and r: "run ml k calls s0 = Some s"
    and rk: "ranked h s" and top: "parent (nodes s r) = None" and f: "h r < fuel"
    and a: "descends s r a" and t: "transforms c a" and e: "exec ml k c s = Some sm"
  shows "(\<forall>d. d \<noteq> a \<longrightarrow> nodes sm d = nodes s d) \<and>
     (\<forall>x. hasChild sm a x \<longrightarrow> \<not> is_model_valid (nodes (revalidateModel ml a sm) x)) \<and>
     (\<exists>s'. update ml fuel r sm = Some s' \<and>
        local_model (nodes s' a) = compose_local ml (nodes sm a) \<and>
        (\<forall>d. descends s a d \<longrightarrow>
           is_model_valid (nodes s' d) \<and>
           world_model (nodes s' d) =
             (case parent (nodes s' d) of
                None \<Rightarrow> local_model (nodes s' d)
              | Some p \<Rightarrow> mat_multiply ml (world_model (nodes s' p)) (local_model (nodes s' d)))))"
proof -
  note te = transforms_effect [OF t e]
  from c r have fl: "flags_ok s" and lo: "local_ok ml s"
    by (blast intro: run_flags_ok run_local_ok constructed_ok)+
  from c l r have ok: "hierarchy_ok ml s" by (blast intro: run_hierarchy_ok constructed_ok)
  from ok te(6) e have okm: "hierarchy_ok ml sm" by (rule exec_hierarchy_ok)
  from fl e have flm: "flags_ok sm" by (rule exec_flags_ok)
  from lo e have lom: "local_ok ml sm" by (rule exec_local_ok)
  have sh: "hasChild sm = hasChild s \<and> (\<forall>m. parent (nodes sm m) = parent (nodes s m))"
    by (simp add: hasChild_def fun_eq_iff te(4) te(5))
  from rk have rkm: "ranked h sm" by (simp add: same_shape(2) [OF sh])
  have de: "descends sm = descends s" by (rule same_shape(3) [OF sh])
  from top have topm: "parent (nodes sm r) = None" by (simp add: te(4))
  from update_pass [OF okm rkm topm f] obtain s'
    where u: "update ml fuel r sm = Some s'"
      and al: "\<forall>d. descends sm r d \<longrightarrow> settled s' d \<and> world_model (nodes s' d) = composed_world ml s' d"
    by blast
  have below: "descends sm r d" if "descends s a d" for d
    using a that unfolding de descends_def by (rule rtranclp_trans)
  have "settled s' a" using al below [of a] by (simp add: descends_def)
  then have "is_model_valid (nodes s' a)" by (rule settled_valid)
  moreover from flm u have "flags_ok s'" by (rule flags_ok_update)
  ultimately have "is_local_model_valid (nodes s' a)" by (simp add: flags_ok_def)
  moreover from lom u have "local_ok ml s'" by (rule local_ok_update)
  ultimately have "local_model (nodes s' a) = compose_local ml (nodes s' a)"
    by (simp add: local_ok_def)
  with update_keeps_transform [OF u, of a]
  have loc: "local_model (nodes s' a) = compose_local ml (nodes sm a)"
    by (simp add: compose_local_def)
  have wm: "is_model_valid (nodes s' d) \<and>
      world_model (nodes s' d) =
        (case parent (nodes s' d) of
           None \<Rightarrow> local_model (nodes s' d)
         | Some p \<Rightarrow> mat_multiply ml (world_model (nodes s' p)) (local_model (nodes s' d)))"
    if "descends s a d" for d
    using al below [OF that] by (simp add: composed_world_def settled_valid)
  have ch: "\<not> is_model_valid (nodes (revalidateModel ml a sm) x)" if "hasChild sm a x" for x
  proof -
    from that rkm have "x \<noteq> a" by (auto simp: ranked_def)
    with that show ?thesis by (simp add: nodes_revalidateModel hasChild_def)
  qed
  from te(3) ch u loc wm show ?thesis by blast
qed

theorem mutated_ancestor_reaches_descendants_witness:
  "constructed symbolic blank \<and> list_all (\<lambda>c. \<not> sets_parent c) warm \<and>
   run symbolic 4 warm blank \<noteq> None \<and>
   ranked (\<lambda>n. 3 - n) (the (run symbolic 4 warm blank)) \<and>
   parent (nodes (the (run symbolic 4 warm blank)) 0) = None \<and>
   descends (the (run symbolic 4 warm blank)) 0 1 \<and>
   descends (the (run symbolic 4 warm blank)) 1 2 \<and>
   transforms (TranslateX 1 (5::int) :: (int, int, int) call) 1 \<and>
   exec symbolic 4 (TranslateX 1 5) (the (run symbolic 4 warm blank)) \<noteq> None \<and>
   is_model_valid (nodes (the (exec symbolic 4 (TranslateX 1 5) (the (run symbolic 4 warm blank)))) 2) \<and>
   world_model (nodes (the (exec symbolic 4 (TranslateX 1 5) (the (run symbolic 4 warm blank)))) 2) =
     [Tmat 0, Rmat 0, Smat 1, Tmat 0, Rmat 0, Smat 1, Tmat 0, Rmat 0, Smat 1] \<and>
   update symbolic 4 0 (the (exec symbolic 4 (TranslateX 1 5) (the (run symbolic 4 warm blank)))) \<noteq> None \<and>
   world_model (nodes (the (update symbolic 4 0
       (the (exec symbolic 4 (TranslateX 1 5) (the (run symbolic 4 warm blank)))))) 2) =
     [Tmat 0, Rmat 0, Smat 1, Tmat 5, Rmat 0, Smat 1, Tmat 0, Rmat 0, Smat 1]"
proof -
  let ?s = "the (run symbolic 4 warm blank)"
  let ?sm = "the (exec symbolic 4 (TranslateX 1 5) ?s)"
  let ?s' = "the (update symbolic 4 0 ?sm)"
  have l: "list_all (\<lambda>c. \<not> sets_parent c) warm" by (simp add: warm_def)
  from run_warm have r: "run symbolic 4 warm blank = Some ?s" by simp
  have top: "parent (nodes ?s 0) = None" by code_simp
  have "hasChild ?s 0 1" "hasChild ?s 1 2" by code_simp+
  then have a: "descends ?s 0 1" and b: "descends ?s 1 2"
    by (blast intro: descends_step descends_refl)+
  have t: "transforms (TranslateX 1 (5::int) :: (int, int, int) call) 1" by simp
  have e: "exec symbolic 4 (TranslateX 1 5) ?s = Some ?sm" by simp
  have f: "3 - 0 < (4::nat)" by simp
  have stale: "is_model_valid (nodes ?sm 2)"
    "world_model (nodes ?sm 2) = [Tmat 0, Rmat 0, Smat 1, Tmat 0, Rmat 0, Smat 1, Tmat 0, Rmat 0, Smat 1]"
    by code_simp+
  from mutated_ancestor_reaches_descendants [OF constructed_blank l r ranked_warm top f a t e]
  obtain s' where u: "update symbolic 4 0 ?sm = Some s'"
    and w: "\<forall>d. descends ?s 1 d \<longrightarrow>
           is_model_valid (nodes s' d) \<and>
           world_model (nodes s' d) =
             (case parent (nodes s' d) of
                None \<Rightarrow> local_model (nodes s' d)
              | Some p \<Rightarrow> mat_multiply symbolic (world_model (nodes s' p)) (local_model (nodes s' d)))"
    by blast
  from u have s': "s' = ?s'" and un: "update symbolic 4 0 ?sm \<noteq> None" by simp_all
  note w = w [unfolded s']
  from w b have "world_model (nodes ?s' 2) =
      (case parent (nodes ?s' 2) of
         None \<Rightarrow> local_model (nodes ?s' 2)
       | Some p \<Rightarrow> mat_multiply symbolic (world_model (nodes ?s' p)) (local_model (nodes ?s' 2)))"
    by blast
  moreover have "parent (nodes ?s' 2) = Some 1 \<and>
      world_model (nodes ?s' 1) = [Tmat 0, Rmat 0, Smat 1, Tmat 5, Rmat 0, Smat 1] \<and>
      local_model (nodes ?s' 2) = [Tmat 0, Rmat 0, Smat 1]"
    by code_simp
  ultimately have "world_model (nodes ?s' 2) =
      [Tmat 0, Rmat 0, Smat 1, Tmat 5, Rmat 0, Smat 1, Tmat 0, Rmat 0, Smat 1]"
    by (simp add: symbolic_def)
  with constructed_blank l run_warm ranked_warm top a b t stale un show ?thesis
    by simp
qed

text \<open>
  C3.  Whatever calls were made on freshly constructed objects (any sequence of setters,
  translations, scalings and rotations among them, between any updates), when \<open>update\<close>
  on an object returns, the local model of that object and of every object below it is
  \<open>Translate(origin) \<cdot> Rotate(orientation) \<cdot> Scale(scale)\<close> of the origin, orientation and
  scale the object has at that call.  The matrix methods are those of a math library
  whose in-place methods multiply on the right.  In a hierarchy without cycles the call
  does return.
\<close>

theorem localModel_from_latest_transform:
  assumes c: "constructed ml s0" and r: "run ml k calls s0 = Some s" and pm: "post_multiplying ml"
  shows "(update ml fuel n s = Some s' \<and> descends s n d \<longrightarrow>
       local_model (nodes s' d) =
         mat_multiply ml
           (mat_multiply ml (mat_Translate ml (origin (nodes s d))) (mat_Rotate ml (orientation (nodes s d))))
           (mat_Scale ml (scale (nodes s d)))) \<and>
     (ranked h s \<and> h n < fuel \<longrightarrow> update ml fuel n s \<noteq> None)"
proof (intro conjI impI)
  assume "update ml fuel n s = Some s' \<and> descends s n d"
  then have u: "update ml fuel n s = Some s'" and d: "descends s n d" by simp_all
  from c r have f: "flags_ok s" and l: "local_ok ml s"
    by (blast intro: run_flags_ok run_local_ok constructed_ok)+
  from l u have "local_ok ml s'" by (rule local_ok_update)
  moreover from f u d have "is_local_model_valid (nodes s' d)" by (rule update_validates_local(1))
  ultimately have "local_model (nodes s' d) = compose_local ml (nodes s' d)"
    by (simp add: local_ok_def)
  with update_keeps_transform [OF u, of d] pm
  show "local_model (nodes s' d) =
         mat_multiply ml
           (mat_multiply ml (mat_Translate ml (origin (nodes s d))) (mat_Rotate ml (orientation (nodes s d))))
           (mat_Scale ml (scale (nodes s d)))"
    by (simp add: compose_local_def post_multiplying_def)
next
  assume "ranked h s \<and> h n < fuel"
  then have "ranked h s" and "h n < fuel" by simp_all
  then show "update ml fuel n s \<noteq> None" by (rule update_returns(1))
qed

theorem localModel_from_latest_transform_witness:
  "constructed symbolic blank \<and> post_multiplying symbolic \<and>
   run symbolic 4 demo blank \<noteq> None \<and>
   ranked (\<lambda>n. 3 - n) (the (run symbolic 4 demo blank)) \<and>
   update symbolic 4 0 (the (run symbolic 4 demo blank)) \<noteq> None \<and>
   descends (the (run symbolic 4 demo blank)) 0 1 \<and>
   origin (nodes (the (run symbolic 4 demo blank)) 1) = 7 \<and>
   orientation (nodes (the (run symbolic 4 demo blank)) 1) = 12 \<and>
   scale (nodes (the (run symbolic 4 demo blank)) 1) = 3 \<and>
   local_model (nodes (the (run symbolic 4 demo blank)) 1) = [Tmat 0, Rmat 0, Smat 1] \<and>
   local_model (nodes (the (update symbolic 4 0 (the (run symbolic 4 demo blank)))) 1) =
     [Tmat 7, Rmat 12, Smat 3]"
proof -
  let ?s = "the (run symbolic 4 demo blank)"
  from run_demo have r: "run symbolic 4 demo blank = Some ?s" by simp
  have f: "3 - 0 < (4::nat)" by simp
  note t = localModel_from_latest_transform [OF constructed_blank r post_multiplying_symbolic,
      of 4 0 "the (update symbolic 4 0 ?s)" 1 "\<lambda>n. 3 - n"]
  from t ranked_demo f have un: "update symbolic 4 0 ?s \<noteq> None" by blast
  then have u: "update symbolic 4 0 ?s = Some (the (update symbolic 4 0 ?s))" by simp
  have "hasChild ?s 0 1" by code_simp
  then have d: "descends ?s 0 1" by (blast intro: descends_step descends_refl)
  have v: "origin (nodes ?s 1) = 7" "orientation (nodes ?s 1) = 12" "scale (nodes ?s 1) = 3"
    "local_model (nodes ?s 1) = [Tmat 0, Rmat 0, Smat 1]"
    by code_simp+
  from t u d have "local_model (nodes (the (update symbolic 4 0 ?s)) 1) =
         mat_multiply symbolic
           (mat_multiply symbolic (mat_Translate symbolic (origin (nodes ?s 1)))
              (mat_Rotate symbolic (orientation (nodes ?s 1))))
           (mat_Scale symbolic (scale (nodes ?s 1)))"
    by blast
  with v have "local_model (nodes (the (update symbolic 4 0 ?s)) 1) = [Tmat 7, Rmat 12, Smat 3]"
    by (simp add: symbolic_def)
  with constructed_blank post_multiplying_symbolic run_demo ranked_demo un d v show ?thesis
    by blast
qed

text \<open>
  C4.  In every scene reached from freshly constructed objects by calls of the interface,
  no object has an invalid local model together with a valid world model.
\<close>

theorem invalid_local_valid_world_unreachable:
  assumes "constructed ml s0" and "run ml fuel calls s0 = Some s"
  shows "\<not> (\<not> is_local_model_valid (nodes s n) \<and> is_model_valid (nodes s n))"
proof -
  from assms have "flags_ok s" by (blast intro: run_flags_ok constructed_ok)
  then show ?thesis by (auto simp: flags_ok_def)
qed

theorem invalid_local_valid_world_unreachable_witness:
  "constructed symbolic blank \<and> run symbolic 4 demo blank \<noteq> None \<and>
   is_local_model_valid (nodes (the (run symbolic 4 demo blank)) 0) \<and>
   is_model_valid (nodes (the (run symbolic 4 demo blank)) 0) \<and>
   \<not> is_local_model_valid (nodes (the (run symbolic 4 demo blank)) 1) \<and>
   \<not> is_model_valid (nodes (the (run symbolic 4 demo blank)) 1)"
proof -
  obtain s where r: "run symbolic 4 demo blank = Some s"
    using run_demo by blast
  have "is_local_model_valid (nodes (the (run symbolic 4 demo blank)) 0) \<and>
      is_model_valid (nodes (the (run symbolic 4 demo blank)) 0) \<and>
      \<not> is_local_model_valid (nodes (the (run symbolic 4 demo blank)) 1)"
    by code_simp
  with invalid_local_valid_world_unreachable [OF constructed_blank r, of 1] r show ?thesis
    by (simp add: constructed_blank)
qed

text \<open>
  C5.  \<open>addChild\<close> with an object that has a parent throws, and the scene at the throw is
  the scene before the call: no child set, no parent, no flag has changed and nothing
  has been delivered.
\<close>

theorem addChild_parented_throws:
  "parent (nodes s c) = Some p \<Longrightarrow> addChild n c s = (Inl AlreadyHasParent, s)"
  by (simp add: addChild_def)

theorem addChild_parented_throws_witness:
  "parent (nodes (snd (addChild 0 1 blank)) 1) = Some 0 \<and>
   addChild 2 1 (snd (addChild 0 1 blank)) = (Inl AlreadyHasParent, snd (addChild 0 1 blank)) \<and>
   children (nodes (snd (addChild 2 1 (snd (addChild 0 1 blank)))) 2) = []"
proof -
  have h: "parent (nodes (snd (addChild 0 1 blank)) 1) = Some 0"
    by (simp add: eval_defs)
  show ?thesis
    using h addChild_parented_throws [OF h, of 2]
    by (simp add: eval_defs)
qed

text \<open>
  C6.  In every scene reached from freshly constructed objects by calls other than a
  direct assignment to \<open>parent\<close> (in particular by \<open>addChild\<close>, \<open>removeChild\<close>,
  \<open>clearChildren\<close> and \<open>destroy\<close>), an object is in the child set of another exactly
  when its parent is that other object.
\<close>

theorem parent_child_bidirectional:
  assumes "constructed ml s0" and "list_all (\<lambda>c. \<not> sets_parent c) calls"
    and "run ml fuel calls s0 = Some s"
  shows "hasChild s n c \<longleftrightarrow> parent (nodes s c) = Some n"
proof -
  from assms have "hierarchy_ok ml s" by (blast intro: run_hierarchy_ok constructed_ok)
  then show ?thesis by (simp add: hierarchy_ok_def struct_ok_def)
qed

theorem parent_child_bidirectional_witness:
  "constructed symbolic blank \<and> list_all (\<lambda>c. \<not> sets_parent c) family \<and>
   run symbolic 4 family blank \<noteq> None \<and>
   hasChild (the (run symbolic 4 family blank)) 0 3 \<and>
   parent (nodes (the (run symbolic 4 family blank)) 3) = Some 0 \<and>
   \<not> hasChild (the (run symbolic 4 family blank)) 1 2 \<and>
   parent (nodes (the (run symbolic 4 family blank)) 2) \<noteq> Some 1"
proof -
  have l: "list_all (\<lambda>c. \<not> sets_parent c) family"
    by (simp add: family_def)
  have n: "run symbolic 4 family blank \<noteq> None"
    by code_simp
  then obtain s where r: "run symbolic 4 family blank = Some s"
    by blast
  have "hasChild (the (run symbolic 4 family blank)) 0 3 \<and>
      \<not> hasChild (the (run symbolic 4 family blank)) 1 2"
    by code_simp
  with parent_child_bidirectional [OF constructed_blank l r, of 0 3]
    parent_child_bidirectional [OF constructed_blank l r, of 1 2] l r
  show ?thesis
    by (simp add: constructed_blank)
qed

text \<open>
  C7.  For an object without parent, \<open>addChild\<close> followed by \<open>removeChild\<close> on the same
  pair: \<open>addChild\<close> returns, \<open>removeChild\<close> returns true, and afterwards the object is
  not a child, has no parent, and its world model is flagged invalid.
\<close>

theorem addChild_removeChild_restores:
  "parent (nodes s c) = None \<Longrightarrow>
     (case addChild n c s of (r, s1) \<Rightarrow>
        case removeChild n (Some c) s1 of (b, s2) \<Rightarrow>
          r = Inr () \<and> b \<and> \<not> hasChild s2 n c \<and> parent (nodes s2 c) = None \<and>
          \<not> is_model_valid (nodes s2 c))"
  by (simp add: addChild_def removeChild_def hasChild_def flag_defs Let_def)

theorem addChild_removeChild_restores_witness:
  "parent (nodes blank 1) = None \<and>
   fst (addChild 0 1 blank) = Inr () \<and>
   hasChild (snd (addChild 0 1 blank)) 0 1 \<and>
   fst (removeChild 0 (Some 1) (snd (addChild 0 1 blank))) \<and>
   \<not> hasChild (snd (removeChild 0 (Some 1) (snd (addChild 0 1 blank)))) 0 1 \<and>
   parent (nodes (snd (removeChild 0 (Some 1) (snd (addChild 0 1 blank)))) 1) = None \<and>
   \<not> is_model_valid (nodes (snd (removeChild 0 (Some 1) (snd (addChild 0 1 blank)))) 1)"
proof -
  have h: "parent (nodes blank 1) = None"
    by (simp add: eval_defs)
  have a: "hasChild (snd (addChild 0 1 blank)) 0 1"
    by (simp add: eval_defs)
  from addChild_removeChild_restores [OF h, of 0] h a show ?thesis
    by (simp add: case_prod_beta)
qed

text \<open>
  C8.  In a hierarchy without cycles, \<open>destroy\<close> on an object returns, and afterwards
  every object of the hierarchy below it, the object itself included, has no parent, no
  listener for any event and no child, and is in the child set of no object.  This
  holds for every depth, depth 2 included.
\<close>

theorem destroy_detaches_subtree:
  assumes c: "constructed ml s0" and l: "list_all (\<lambda>c. \<not> sets_parent c) calls"
    and r: "run ml k calls s0 = Some s"
    and h: "ranked h s" and f: "h n < fuel"
  shows "\<exists>s'. destroy fuel n s = Some s' \<and>
     (\<forall>d. descends s n d \<longrightarrow>
        parent (nodes s' d) = None \<and> (\<forall>ev. listeners (nodes s' d) ev = []) \<and>
        children (nodes s' d) = [] \<and> (\<forall>m. \<not> hasChild s' m d))"
proof -
  from c l r have "hierarchy_ok ml s" by (blast intro: run_hierarchy_ok constructed_ok)
  then have st: "struct_ok s" by (simp add: hierarchy_ok_def)
  from destroy_returns(1) [OF h f] obtain s' where d: "destroy fuel n s = Some s'" by blast
  from st d have st': "struct_ok s'" by (rule struct_ok_destroy)
  have "parent (nodes s' x) = None \<and> (\<forall>ev. listeners (nodes s' x) ev = []) \<and>
        children (nodes s' x) = [] \<and> (\<forall>m. \<not> hasChild s' m x)" if "descends s n x" for x
  proof -
    from destroy_subtree [OF st d that] have "destroyed s' x" .
    with st' show ?thesis by (simp add: destroyed_def struct_ok_def)
  qed
  with d show ?thesis by blast
qed

theorem destroy_detaches_subtree_witness:
  "constructed symbolic blank \<and> list_all (\<lambda>c. \<not> sets_parent c) clan \<and>
   run symbolic 4 clan blank \<noteq> None \<and>
   ranked (\<lambda>n. 4 - n) (the (run symbolic 4 clan blank)) \<and>
   descends (the (run symbolic 4 clan blank)) 1 4 \<and>
   hasChild (the (run symbolic 4 clan blank)) 0 1 \<and>
   listeners (nodes (the (run symbolic 4 clan blank)) 4) ''model'' = [13] \<and>
   destroy 4 1 (the (run symbolic 4 clan blank)) \<noteq> None \<and>
   parent (nodes (the (destroy 4 1 (the (run symbolic 4 clan blank)))) 4) = None \<and>
   listeners (nodes (the (destroy 4 1 (the (run symbolic 4 clan blank)))) 4) ''model'' = [] \<and>
   \<not> hasChild (the (destroy 4 1 (the (run symbolic 4 clan blank)))) 2 4 \<and>
   \<not> hasChild (the (destroy 4 1 (the (run symbolic 4 clan blank)))) 0 1"
proof -
  let ?s = "the (run symbolic 4 clan blank)"
  let ?s' = "the (destroy 4 1 ?s)"
  have l: "list_all (\<lambda>c. \<not> sets_parent c) clan" by (simp add: clan_def)
  from run_clan have r: "run symbolic 4 clan blank = Some ?s" by simp
  have c: "hasChild ?s 0 1" "hasChild ?s 1 2" "hasChild ?s 2 4"
    "listeners (nodes ?s 4) ''model'' = [13]"
    by code_simp+
  then have d: "descends ?s 1 4" "descends ?s 1 1"
    by (blast intro: descends_step descends_refl)+
  have f: "4 - 1 < (4::nat)" by simp
  from destroy_detaches_subtree [OF constructed_blank l r ranked_clan f]
  obtain s' where u: "destroy 4 1 ?s = Some s'"
    and w: "\<forall>d. descends ?s 1 d \<longrightarrow>
        parent (nodes s' d) = None \<and> (\<forall>ev. listeners (nodes s' d) ev = []) \<and>
        children (nodes s' d) = [] \<and> (\<forall>m. \<not> hasChild s' m d)"
    by blast
  from u have s': "s' = ?s'" and un: "destroy 4 1 ?s \<noteq> None" by simp_all
  note w = w [unfolded s']
  from w d have "parent (nodes ?s' 4) = None \<and> listeners (nodes ?s' 4) ''model'' = [] \<and>
      \<not> hasChild ?s' 2 4 \<and> \<not> hasChild ?s' 0 1"
    by blast
  with constructed_blank l run_clan ranked_clan d c un show ?thesis
    by simp
qed

text \<open>
  C9 (spec-modelled \<open>Listenable\<close>).  After two callbacks have been registered for
  \<open>origin\<close> on an object, one call of the origin setter delivers the event to the
  callbacks registered before, then to the first and then to the second of the two,
  once each, with the new origin as the argument.
\<close>

theorem origin_listeners_in_order:
  "delivered (set_origin n v (on n ''origin'' cb2 (on n ''origin'' cb1 s))) =
     delivered s @
     map (\<lambda>cb. \<lparr>emitter = n, event = ''origin'', callback = cb, args = [Vec v]\<rparr>)
       (listeners (nodes s n) ''origin'' @ [cb1, cb2])"
  by (simp add: set_origin_def on_def flag_defs Let_def delivered_notify)

theorem origin_listeners_in_order_witness:
  "delivered (set_origin 0 5 (on 0 ''origin'' 8 (on 0 ''origin'' 7 blank))) =
     [\<lparr>emitter = 0, event = ''origin'', callback = 7, args = [Vec 5]\<rparr>,
      \<lparr>emitter = 0, event = ''origin'', callback = 8, args = [Vec 5]\<rparr>]"
  using origin_listeners_in_order [of 0 5 8 7 blank]
  by (simp add: blank_def Object3D_def)

text \<open>
  C10 (spec-modelled \<open>Listenable\<close>).  When \<open>destroy\<close> on an object returns, the only
  deliveries it has made are those of the \<open>remove\<close> event that the object's parent sends
  to its own listeners when the object is taken out of its child set.  No listener of
  the \<open>destroy\<close> event is invoked, neither of the object nor of the objects below it,
  and the \<open>remove\<close> events of the loop over the children reach no listener.  In a
  hierarchy without cycles the call does return.
\<close>

theorem destroy_invokes_no_own_listener:
  "(destroy fuel n s = Some s' \<longrightarrow>
      delivered s' =
        delivered s @
        (case parent (nodes s n) of
           None \<Rightarrow> []
         | Some p \<Rightarrow>
             if hasChild s p n
             then map (\<lambda>cb. \<lparr>emitter = p, event = ''remove'', callback = cb, args = [Obj p, Obj n]\<rparr>)
                    (listeners (nodes s p) ''remove'')
             else [])) \<and>
   (ranked h s \<and> h n < fuel \<longrightarrow> destroy fuel n s \<noteq> None)"
proof (intro conjI impI)
  assume "destroy fuel n s = Some s'"
  from destroy_delivers_nothing_more(1) [OF this]
  show "delivered s' =
        delivered s @
        (case parent (nodes s n) of
           None \<Rightarrow> []
         | Some p \<Rightarrow>
             if hasChild s p n
             then map (\<lambda>cb. \<lparr>emitter = p, event = ''remove'', callback = cb, args = [Obj p, Obj n]\<rparr>)
                    (listeners (nodes s p) ''remove'')
             else [])"
    by (simp add: detach_def delivered_removeChild split: option.splits)
next
  assume "ranked h s \<and> h n < fuel"
  then have "ranked h s" and "h n < fuel" by simp_all
  then show "destroy fuel n s \<noteq> None" by (rule destroy_returns(1))
qed

theorem destroy_invokes_no_own_listener_witness:
  "run symbolic 4 audience blank \<noteq> None \<and>
   ranked (\<lambda>n. 4 - n) (the (run symbolic 4 audience blank)) \<and>
   destroy 4 1 (the (run symbolic 4 audience blank)) \<noteq> None \<and>
   listeners (nodes (the (run symbolic 4 audience blank)) 1) ''destroy'' = [11] \<and>
   listeners (nodes (the (run symbolic 4 audience blank)) 1) ''remove'' = [12] \<and>
   listeners (nodes (the (run symbolic 4 audience blank)) 2) ''destroy'' = [13] \<and>
   delivered (the (run symbolic 4 audience blank)) = [] \<and>
   delivered (the (destroy 4 1 (the (run symbolic 4 audience blank)))) =
     [\<lparr>emitter = 0, event = ''remove'', callback = 10, args = [Obj 0, Obj 1]\<rparr>]"
proof -
  let ?s = "the (run symbolic 4 audience blank)"
  have n: "run symbolic 4 audience blank \<noteq> None" by code_simp
  have f: "4 - 1 < (4::nat)" by simp
  note t = destroy_invokes_no_own_listener [of 4 1 ?s "the (destroy 4 1 ?s)" "\<lambda>n. 4 - n"]
  from t ranked_audience f have d: "destroy 4 1 ?s \<noteq> None" by blast
  then have d': "destroy 4 1 ?s = Some (the (destroy 4 1 ?s))" by simp
  have v: "listeners (nodes ?s 1) ''destroy'' = [11]" "listeners (nodes ?s 1) ''remove'' = [12]"
    "listeners (nodes ?s 2) ''destroy'' = [13]"
    "delivered ?s = []" "parent (nodes ?s 1) = Some 0" "hasChild ?s 0 1"
    "listeners (nodes ?s 0) ''remove'' = [10]"
    by code_simp+
  from t d' have "delivered (the (destroy 4 1 ?s)) =
        delivered ?s @
        (case parent (nodes ?s 1) of
           None \<Rightarrow> []
         | Some p \<Rightarrow>
             if hasChild ?s p 1
             then map (\<lambda>cb. \<lparr>emitter = p, event = ''remove'', callback = cb, args = [Obj p, Obj 1]\<rparr>)
                    (listeners (nodes ?s p) ''remove'')
             else [])"
    by blast
  with v have "delivered (the (destroy 4 1 ?s)) =
     [\<lparr>emitter = 0, event = ''remove'', callback = 10, args = [Obj 0, Obj 1]\<rparr>]"
    by simp
  with n ranked_audience d v show ?thesis by blast
qed

end
